theory Spec2Isabelle
  imports Main "HOL-Library.Word"
begin

unbundle bit_operations_syntax

section \<open>Machine types\<close>

text \<open>
  The C code works on \<open>u8\<close>, \<open>u16\<close> and \<open>size_t\<close>.  Bytes and the \<open>u8\<close>/\<open>u16\<close> fields are
  words of that width.  Arithmetic on them is done by C after integer promotion, so the
  operands are read with \<open>unat\<close>/\<open>uint\<close> and the result is cut back to the width of the
  variable it is stored in.  A \<open>size_t\<close> is a natural number; the one place where the code
  converts a possibly negative \<open>int\<close> into a \<open>size_t\<close> (\<open>version - 1\<close>) is written out
  for a 64-bit \<open>size_t\<close>.
\<close>

type_synonym u8 = "8 word"
type_synonym u16 = "16 word"
type_synonym u32 = "32 word"

definition size_t_of_int :: "int \<Rightarrow> nat" where
  "size_t_of_int i = nat (i mod 2 ^ 64)"

section \<open>Static tables of the QR generator\<close>

text \<open>The generator polynomials \<open>P7\<close> .. \<open>P30\<close> are identified by their address in the
  source; \<open>poly_ptr\<close> is that address and \<open>poly_array\<close> the array behind it.\<close>

datatype poly_ptr = P7 | P10 | P15 | P18 | P20 | P22 | P24 | P26 | P28 | P30

fun poly_array :: "poly_ptr \<Rightarrow> u8 list" where
  "poly_array P7 = [87, 229, 146, 149, 238, 102, 21]"
| "poly_array P10 = [251, 67, 46, 61, 118, 70, 64, 94, 32, 45]"
| "poly_array P15 = [8, 183, 61, 91, 202, 37, 51, 58, 58, 237, 140, 124, 5, 99, 105]"
| "poly_array P18 = [215, 234, 158, 94, 184, 97, 118, 170, 79, 187, 152, 148, 252, 179, 5,
     98, 96, 153]"
| "poly_array P20 = [17, 60, 79, 50, 61, 163, 26, 187, 202, 180, 221, 225, 83, 239, 156,
     164, 212, 212, 188, 190]"
| "poly_array P22 = [210, 171, 247, 242, 93, 230, 14, 109, 221, 53, 200, 74, 8, 172, 98,
     80, 219, 134, 160, 105, 165, 231]"
| "poly_array P24 = [229, 121, 135, 48, 211, 117, 251, 126, 159, 180, 169, 152, 192, 226,
     228, 218, 111, 0, 117, 232, 87, 96, 227, 21]"
| "poly_array P26 = [173, 125, 158, 2, 103, 182, 118, 17, 145, 201, 111, 28, 165, 53, 161,
     21, 245, 142, 13, 102, 48, 227, 153, 145, 218, 70]"
| "poly_array P28 = [168, 223, 200, 104, 224, 234, 108, 180, 110, 190, 195, 147, 205, 27,
     232, 201, 21, 43, 245, 87, 42, 195, 212, 119, 242, 37, 9, 123]"
| "poly_array P30 = [41, 173, 145, 152, 216, 31, 179, 182, 50, 48, 110, 86, 239, 96, 222,
     125, 42, 173, 226, 193, 224, 130, 156, 37, 251, 216, 238, 40, 192, 180]"

record qr_version_param =
  vp_poly :: "poly_ptr option"
  vp_g1_blocks :: u8
  vp_g2_blocks :: u8
  vp_g1_blk_size :: u8

definition vparam :: "poly_ptr \<Rightarrow> u8 \<Rightarrow> u8 \<Rightarrow> u8 \<Rightarrow> qr_version_param" where
  "vparam p g1 g2 s1 =
     \<lparr>vp_poly = Some p, vp_g1_blocks = g1, vp_g2_blocks = g2, vp_g1_blk_size = s1\<rparr>"

definition VPARAM :: "qr_version_param list" where
  "VPARAM =
   [vparam P7 1 0 19, vparam P10 1 0 34, vparam P15 1 0 55, vparam P20 1 0 80,
    vparam P26 1 0 108, vparam P18 2 0 68, vparam P20 2 0 78, vparam P24 2 0 97,
    vparam P30 2 0 116, vparam P18 2 2 68, vparam P20 4 0 81, vparam P24 2 2 92,
    vparam P26 4 0 107, vparam P30 3 1 115, vparam P22 5 1 87, vparam P24 5 1 98,
    vparam P28 1 5 107, vparam P30 5 1 120, vparam P28 3 4 113, vparam P28 3 5 107,
    vparam P28 4 4 116, vparam P28 2 7 111, vparam P30 4 5 121, vparam P30 6 4 117,
    vparam P26 8 4 106, vparam P28 10 2 114, vparam P30 8 4 122, vparam P30 3 10 117,
    vparam P30 7 7 116, vparam P30 5 10 115, vparam P30 13 3 115, vparam P30 17 0 115,
    vparam P30 17 1 115, vparam P30 13 6 115, vparam P30 12 7 121, vparam P30 6 14 121,
    vparam P30 17 4 122, vparam P30 4 18 122, vparam P30 20 4 117, vparam P30 19 6 118]"

section \<open>Version parameters\<close>

record qr_version =
  version :: u8

text \<open>\<open>size_t v = version.version - 1\<close>: the \<open>u8\<close> is promoted to \<open>int\<close>, so version 0
  gives \<open>-1\<close>, which becomes the largest \<open>size_t\<close> and fails the range check.\<close>

definition version_index :: "qr_version \<Rightarrow> nat" where
  "version_index ver = size_t_of_int (uint (version ver) - 1)"

definition qr_version_width :: "qr_version \<Rightarrow> u8" where
  "qr_version_width ver = word_of_int (uint (version ver) * 4 + 17)"

definition qr_version_max_data :: "qr_version \<Rightarrow> nat" where
  "qr_version_max_data ver =
     (let v = version_index ver in
      if v \<ge> 40 then 0
      else unat (vp_g1_blk_size (VPARAM ! v)) * unat (vp_g1_blocks (VPARAM ! v)) +
           (unat (vp_g1_blk_size (VPARAM ! v)) + 1) * unat (vp_g2_blocks (VPARAM ! v)))"

definition qr_version_ec_size :: "qr_version \<Rightarrow> nat" where
  "qr_version_ec_size ver =
     (let v = version_index ver in
      if v \<ge> 40 then 0
      else (case vp_poly (VPARAM ! v) of
              None \<Rightarrow> 0
            | Some P7 \<Rightarrow> 7 | Some P10 \<Rightarrow> 10 | Some P15 \<Rightarrow> 15 | Some P18 \<Rightarrow> 18
            | Some P20 \<Rightarrow> 20 | Some P22 \<Rightarrow> 22 | Some P24 \<Rightarrow> 24 | Some P26 \<Rightarrow> 26
            | Some P28 \<Rightarrow> 28 | Some P30 \<Rightarrow> 30))"

definition qr_version_g1_blocks :: "qr_version \<Rightarrow> nat" where
  "qr_version_g1_blocks ver =
     (let v = version_index ver in if v \<ge> 40 then 0 else unat (vp_g1_blocks (VPARAM ! v)))"

definition qr_version_g2_blocks :: "qr_version \<Rightarrow> nat" where
  "qr_version_g2_blocks ver =
     (let v = version_index ver in if v \<ge> 40 then 0 else unat (vp_g2_blocks (VPARAM ! v)))"

definition qr_version_g1_blk_size :: "qr_version \<Rightarrow> nat" where
  "qr_version_g1_blk_size ver =
     (let v = version_index ver in if v \<ge> 40 then 0 else unat (vp_g1_blk_size (VPARAM ! v)))"

definition qr_version_poly :: "qr_version \<Rightarrow> poly_ptr option" where
  "qr_version_poly ver =
     (let v = version_index ver in if v \<ge> 40 then None else vp_poly (VPARAM ! v))"

section \<open>Capacity query\<close>

text \<open>\<open>qr_max_data_size\<close> returns a \<open>size_t\<close>; its subtractions are the unsigned ones of C
  and wrap modulo \<open>2 ^ 64\<close>.\<close>

definition size_t_sub :: "nat \<Rightarrow> nat \<Rightarrow> nat" where
  "size_t_sub a b = nat ((int a - int b) mod 2 ^ 64)"

definition qr_max_data_size :: "u8 \<Rightarrow> nat \<Rightarrow> nat" where
  "qr_max_data_size ver url_len =
     (if ver < 1 \<or> ver > 40 then 0
      else let max_data = qr_version_max_data \<lparr>version = ver\<rparr> in
        if url_len > 0 then
          (if (url_len + 5) mod 2 ^ 64 \<ge> max_data then 0
           else (size_t_sub (size_t_sub max_data url_len) 5 * 39) div 40)
        else size_t_sub max_data 3)"

text \<open>The data-codeword capacity in the words of the specification:
  \<open>D(v) = g1 * s1 + g2 * s2\<close> with \<open>s2 = s1 + 1\<close>, read from \<open>VPARAM[v - 1]\<close>.\<close>

definition spec_D :: "nat \<Rightarrow> nat" where
  "spec_D v =
     (let p = VPARAM ! (v - 1);
          g1 = unat (vp_g1_blocks p); g2 = unat (vp_g2_blocks p);
          s1 = unat (vp_g1_blk_size p); s2 = s1 + 1
      in g1 * s1 + g2 * s2)"

section \<open>Segments\<close>

datatype segment_type = SEGMENT_BINARY | SEGMENT_NUMERIC

text \<open>A segment borrows its bytes: \<open>seg_data\<close> is the buffer behind the pointer and
  \<open>seg_length\<close> the length field, which the code reads independently of the buffer.\<close>

record qr_segment =
  seg_type :: segment_type
  seg_data :: "u8 list"
  seg_length :: nat

definition MODE_STOP :: u16 where "MODE_STOP = 0"
definition MODE_NUMERIC :: u16 where "MODE_NUMERIC = 1"
definition MODE_BINARY :: u16 where "MODE_BINARY = 4"

definition PADDING :: "u8 list" where "PADDING = [236, 17]"
definition NUM_CHARS_BITS :: "nat list" where "NUM_CHARS_BITS = [0, 4, 7, 10]"
definition POW10 :: "u16 list" where "POW10 = [1, 10, 100, 1000]"

definition qr_segment_length_bits_count :: "qr_segment \<Rightarrow> qr_version \<Rightarrow> nat" where
  "qr_segment_length_bits_count segment ver =
     (case seg_type segment of
        SEGMENT_BINARY \<Rightarrow> (if version ver \<le> 9 then 8 else 16)
      | SEGMENT_NUMERIC \<Rightarrow>
          (if version ver \<le> 9 then 10 else if version ver \<le> 26 then 12 else 14))"

definition qr_segment_character_count :: "qr_segment \<Rightarrow> nat" where
  "qr_segment_character_count segment =
     (case seg_type segment of
        SEGMENT_BINARY \<Rightarrow> seg_length segment
      | SEGMENT_NUMERIC \<Rightarrow>
          (let data_bits = seg_length segment * 8;
               last_chars = (if data_bits mod 13 \<noteq> 0 then (data_bits mod 13 + 1) div 3 else 0)
           in 4 * (data_bits div 13) + last_chars))"

definition qr_segment_total_size_bits :: "qr_segment \<Rightarrow> qr_version \<Rightarrow> nat" where
  "qr_segment_total_size_bits segment ver =
     (let data_size =
        (case seg_type segment of
           SEGMENT_BINARY \<Rightarrow> seg_length segment * 8
         | SEGMENT_NUMERIC \<Rightarrow>
             (let digits = qr_segment_character_count segment
              in 10 * (digits div 3) + NUM_CHARS_BITS ! (digits mod 3)))
      in 4 + qr_segment_length_bits_count segment ver + data_size)"

text \<open>
  \<open>get_next_13b\<close> returns the number and, through \<open>*size\<close>, the number of bits taken.
  \<open>first_byte\<close> and \<open>number\<close> are \<open>u16\<close>; the shifts are done on the promoted \<open>int\<close>
  (here: on the natural number \<open>unat\<close> reads) and only the store into \<open>number\<close> cuts the
  value back to 16 bits.  So \<open>(first_byte << bit_off) >> bit_off\<close> is computed without
  losing the bits shifted beyond bit 7.  The last two alternatives of the three-byte case
  cannot be reached (see \<open>get_next_13b_three_bytes\<close> below); there \<open>16 - b\<close> would be a
  negative shift count in C, and the model's \<open>16 - b\<close> on naturals is 0.
\<close>

definition get_next_13b :: "u8 list \<Rightarrow> nat \<Rightarrow> nat \<Rightarrow> u16 \<times> nat" where
  "get_next_13b data data_len offset =
     (if offset \<ge> data_len * 8 then (0, 0)
      else
        let bit_size = min 13 (data_len * 8 - offset);
            byte_off = offset div 8;
            bit_off = offset mod 8;
            b = bit_off + bit_size;
            first_byte = unat (data ! byte_off)
        in
          if b \<le> 8 then
            (word_of_nat (drop_bit (8 - bit_size) (push_bit bit_off first_byte)), bit_size)
          else if b \<le> 16 then
            (let number = (word_of_nat (drop_bit bit_off (push_bit bit_off first_byte)) :: u16);
                 number = (word_of_nat (push_bit (b - 8) (unat number)) :: u16)
             in if byte_off + 1 < data_len then
                  (number + word_of_nat (drop_bit (16 - b) (unat (data ! (byte_off + 1)))),
                   bit_size)
                else (number, 8 - bit_off))
          else if byte_off + 2 < data_len then
            (let number = (word_of_nat
                   (push_bit (b - 8) (drop_bit bit_off (push_bit bit_off first_byte))) :: u16);
                 number = number + word_of_nat (push_bit (b - 16) (unat (data ! (byte_off + 1))));
                 number = number + word_of_nat (drop_bit (24 - b) (unat (data ! (byte_off + 2))))
             in (number, bit_size))
          else if byte_off + 1 < data_len then
            (let number = (word_of_nat
                   (push_bit (b - 8) (drop_bit bit_off (push_bit bit_off first_byte))) :: u16);
                 number = number + word_of_nat (drop_bit (16 - b) (unat (data ! (byte_off + 1))))
             in (number, 16 - bit_off))
          else (0, bit_size))"

definition qr_segment_get_header :: "qr_segment \<Rightarrow> u16 \<times> nat" where
  "qr_segment_get_header segment =
     (case seg_type segment of
        SEGMENT_BINARY \<Rightarrow> (MODE_BINARY, 4)
      | SEGMENT_NUMERIC \<Rightarrow> (MODE_NUMERIC, 4))"

definition qr_segment_get_length_field :: "qr_segment \<Rightarrow> qr_version \<Rightarrow> u16 \<times> nat" where
  "qr_segment_get_length_field segment ver =
     (let len_bits = qr_segment_length_bits_count segment ver;
          char_count = qr_segment_character_count segment
      in (word_of_nat (char_count AND (2 ^ len_bits - 1)), len_bits))"

record segment_iterator =
  si_segment :: qr_segment
  si_offset :: nat
  si_carry :: u16
  si_carry_len :: nat

definition qr_segment_iterator_init :: "qr_segment \<Rightarrow> segment_iterator" where
  "qr_segment_iterator_init segment =
     \<lparr>si_segment = segment, si_offset = 0, si_carry = 0, si_carry_len = 0\<rparr>"

text \<open>\<open>qr_segment_iterator_next\<close> returns \<open>None\<close> for \<open>false\<close> and otherwise the bits, their
  count and the advanced iterator.\<close>

definition qr_segment_iterator_next ::
  "segment_iterator \<Rightarrow> (u16 \<times> nat \<times> segment_iterator) option" where
  "qr_segment_iterator_next iter =
     (case seg_type (si_segment iter) of
        SEGMENT_BINARY \<Rightarrow>
          (if si_offset iter < seg_length (si_segment iter) then
             Some (ucast (seg_data (si_segment iter) ! si_offset iter), 8,
                   iter\<lparr>si_offset := si_offset iter + 1\<rparr>)
           else None)
      | SEGMENT_NUMERIC \<Rightarrow>
          (if si_carry_len iter = 3 then
             Some (si_carry iter, NUM_CHARS_BITS ! si_carry_len iter,
                   iter\<lparr>si_carry := 0, si_carry_len := 0\<rparr>)
           else
             let (number, bit_size) =
                   get_next_13b (seg_data (si_segment iter)) (seg_length (si_segment iter))
                     (si_offset iter)
             in
               if bit_size = 0 then
                 (if si_carry_len iter > 0 then
                    Some (si_carry iter, NUM_CHARS_BITS ! si_carry_len iter,
                          iter\<lparr>si_carry_len := 0\<rparr>)
                  else None)
               else
                 let iter1 = iter\<lparr>si_offset := si_offset iter + bit_size\<rparr>;
                     new_chars = (if bit_size = 1 then 1 else (bit_size + 1) div 3)
                 in
                   if si_carry_len iter + new_chars > 3 then
                     (let remaining = si_carry_len iter + new_chars - 3
                      in Some (word_of_nat
                                 (unat (si_carry iter) * unat (POW10 ! (new_chars - remaining)) +
                                  unat number div unat (POW10 ! remaining)),
                               NUM_CHARS_BITS ! 3,
                               iter1\<lparr>si_carry := word_of_nat (unat number mod unat (POW10 ! remaining)),
                                     si_carry_len := remaining\<rparr>))
                   else
                     Some (word_of_nat (unat (si_carry iter) * unat (POW10 ! new_chars) + unat number),
                           NUM_CHARS_BITS ! (si_carry_len iter + new_chars),
                           iter1\<lparr>si_carry_len := 0, si_carry := 0\<rparr>)))"

section \<open>Encoded message\<close>

record encoded_msg =
  em_data :: "u8 list"
  em_ec_size :: u8
  em_g1_blocks :: u8
  em_g2_blocks :: u8
  em_g1_blk_size :: u8
  em_g2_blk_size :: u8
  em_poly :: "poly_ptr option"
  em_version :: qr_version

text \<open>
  \<open>encoded_msg_init\<close>: \<open>segments\<close>/\<open>count\<close> are a list, \<open>data\<close>/\<open>data_size\<close> the buffer and
  its declared size.  \<open>None\<close> is the \<open>false\<close> return.  The \<open>u8\<close> fields are stored from
  \<open>size_t\<close> values, which cuts them to 8 bits.  \<open>memset\<close> clears \<open>data_size\<close> bytes.
\<close>

definition encoded_msg_init ::
  "qr_segment list \<Rightarrow> u8 \<Rightarrow> u8 list \<Rightarrow> nat \<Rightarrow> encoded_msg option" where
  "encoded_msg_init segments qr_ver data data_size =
     (if length segments = 0 \<or> data_size = 0 then None
      else if qr_ver < 1 \<or> qr_ver > 40 then None
      else
        let ver = \<lparr>version = qr_ver\<rparr>;
            total_bits = (\<Sum>seg\<leftarrow>segments. qr_segment_total_size_bits seg ver) + 4;
            max_data = qr_version_max_data ver
        in
          if total_bits > max_data * 8 then None
          else
            let ec_size = qr_version_ec_size ver;
                g1_blocks = qr_version_g1_blocks ver;
                g2_blocks = qr_version_g2_blocks ver;
                g1_blk_size = qr_version_g1_blk_size ver;
                required_size = max_data + ec_size * (g1_blocks + g2_blocks)
            in
              if data_size < required_size then None
              else Some \<lparr>em_data = replicate data_size 0 @ drop data_size data,
                         em_ec_size = word_of_nat ec_size,
                         em_g1_blocks = word_of_nat g1_blocks,
                         em_g2_blocks = word_of_nat g2_blocks,
                         em_g1_blk_size = word_of_nat g1_blk_size,
                         em_g2_blk_size = word_of_nat (g1_blk_size + 1),
                         em_poly = qr_version_poly ver,
                         em_version = ver\<rparr>)"

subsection \<open>Interleaved output\<close>

record encoded_msg_iterator =
  iter_em :: encoded_msg
  iter_offset :: nat

definition encoded_msg_iterator_init :: "encoded_msg \<Rightarrow> encoded_msg_iterator" where
  "encoded_msg_iterator_init em = \<lparr>iter_em = em, iter_offset = 0\<rparr>"

text \<open>The locals \<open>blocks\<close>, \<open>g1_end\<close>, \<open>g2_end\<close> and \<open>ec_end\<close> of
  \<open>encoded_msg_iterator_next\<close>.\<close>

definition em_blocks :: "encoded_msg \<Rightarrow> nat" where
  "em_blocks em = unat (em_g1_blocks em) + unat (em_g2_blocks em)"

definition em_g1_end :: "encoded_msg \<Rightarrow> nat" where
  "em_g1_end em = unat (em_g1_blocks em) * unat (em_g1_blk_size em)"

definition em_g2_end :: "encoded_msg \<Rightarrow> nat" where
  "em_g2_end em = em_g1_end em + unat (em_g2_blocks em) * unat (em_g2_blk_size em)"

definition em_ec_end :: "encoded_msg \<Rightarrow> nat" where
  "em_ec_end em = em_g2_end em + unat (em_ec_size em) * em_blocks em"

text \<open>The index \<open>offset\<close> into \<open>em->data\<close> that \<open>encoded_msg_iterator_next\<close> computes for
  the iterator position \<open>off\<close>, branch by branch.\<close>

definition encoded_msg_iterator_index :: "encoded_msg \<Rightarrow> nat \<Rightarrow> nat" where
  "encoded_msg_iterator_index em off =
     (let blocks = em_blocks em; g1_end = em_g1_end em; g2_end = em_g2_end em in
      if off < unat (em_g1_blk_size em) * blocks then
        (let blk = off mod blocks; blk_off = off div blocks in
         if blk < unat (em_g1_blocks em) then blk * unat (em_g1_blk_size em) + blk_off
         else g1_end + (blk - unat (em_g1_blocks em)) * unat (em_g2_blk_size em) + blk_off)
      else if off < g2_end then
        (let blk2 = off - blocks * unat (em_g1_blk_size em) in
         g1_end + blk2 div unat (em_g2_blk_size em) * unat (em_g2_blk_size em) +
           unat (em_g2_blk_size em) - 1)
      else
        (let ec_offset = off - g2_end;
             blk = ec_offset mod blocks;
             blk_off = ec_offset div blocks
         in g2_end + blk * unat (em_ec_size em) + blk_off))"

text \<open>\<open>None\<close> is the \<open>false\<close> return (the iterator is left as it is); otherwise the byte
  read and the advanced iterator.\<close>

definition encoded_msg_iterator_next ::
  "encoded_msg_iterator \<Rightarrow> (u8 \<times> encoded_msg_iterator) option" where
  "encoded_msg_iterator_next iter =
     (let em = iter_em iter in
      if iter_offset iter \<ge> em_ec_end em then None
      else Some (em_data em ! encoded_msg_iterator_index em (iter_offset iter),
                 iter\<lparr>iter_offset := iter_offset iter + 1\<rparr>))"

subsection \<open>Writing the bit stream\<close>

text \<open>
  \<open>encoded_msg_push\<close> writes \<open>len_bits\<close> bits of \<open>number\<close> at bit \<open>offset\<close> and returns
  the message with the advanced offset.  A store outside the buffer is undefined in C; in
  the model \<open>list_update\<close> leaves the list as it is there.  \<open>byte_of\<close> is the
  \<open>(...) & 0xFF\<close> stored into a \<open>u8\<close>.
\<close>

definition byte_of :: "nat \<Rightarrow> u8" where
  "byte_of n = word_of_nat (n AND 0xFF)"

definition encoded_msg_push :: "encoded_msg \<Rightarrow> nat \<Rightarrow> u16 \<Rightarrow> nat \<Rightarrow> encoded_msg \<times> nat" where
  "encoded_msg_push em offset number len_bits =
     (let byte_off = offset div 8;
          bit_off = offset mod 8;
          b = bit_off + len_bits;
          n = unat number;
          d = em_data em;
          d' =
            (if bit_off = 0 \<and> b \<le> 8 then
               d[byte_off := byte_of (push_bit (8 - b) n)]
             else if bit_off = 0 then
               (d[byte_off := byte_of (drop_bit (b - 8) n)])
                 [byte_off + 1 := byte_of (push_bit (16 - b) n)]
             else if b \<le> 8 then
               d[byte_off := d ! byte_off OR byte_of (push_bit (8 - b) n)]
             else if b \<le> 16 then
               (d[byte_off := d ! byte_off OR byte_of (drop_bit (b - 8) n)])
                 [byte_off + 1 := byte_of (push_bit (16 - b) n)]
             else
               ((d[byte_off := d ! byte_off OR byte_of (drop_bit (b - 8) n)])
                  [byte_off + 1 := byte_of (drop_bit (b - 16) n)])
                 [byte_off + 2 := byte_of (push_bit (24 - b) n)])
      in (em\<lparr>em_data := d'\<rparr>, offset + len_bits))"

text \<open>The \<open>while (qr_segment_iterator_next(...))\<close> loop of \<open>encoded_msg_add_segments\<close>.
  It terminates because every successful call either consumes input or empties the carry.\<close>

definition seg_remaining :: "segment_iterator \<Rightarrow> nat" where
  "seg_remaining iter =
     (case seg_type (si_segment iter) of
        SEGMENT_BINARY \<Rightarrow> seg_length (si_segment iter) - si_offset iter
      | SEGMENT_NUMERIC \<Rightarrow> seg_length (si_segment iter) * 8 - si_offset iter)"

lemma get_next_13b_size_pos:
  "offset < data_len * 8 \<Longrightarrow> 0 < snd (get_next_13b data data_len offset)"
  by (auto simp: get_next_13b_def Let_def min_def)

lemma get_next_13b_size_zero:
  "snd (get_next_13b data data_len offset) = 0 \<Longrightarrow> data_len * 8 \<le> offset"
  using get_next_13b_size_pos[of offset data_len data] by (cases "offset < data_len * 8") auto

lemma qr_segment_iterator_next_decreases:
  assumes "qr_segment_iterator_next iter = Some (bits, sz, iter')"
  shows "seg_remaining iter' < seg_remaining iter \<or>
         (seg_remaining iter' = seg_remaining iter \<and> si_carry_len iter' < si_carry_len iter)"
proof (cases "seg_type (si_segment iter)")
  case SEGMENT_BINARY
  with assms show ?thesis
    by (auto simp: qr_segment_iterator_next_def seg_remaining_def split: if_splits)
next
  case SEGMENT_NUMERIC
  obtain number bit_size where g: "get_next_13b (seg_data (si_segment iter))
      (seg_length (si_segment iter)) (si_offset iter) = (number, bit_size)"
    by (cases "get_next_13b (seg_data (si_segment iter)) (seg_length (si_segment iter)) (si_offset iter)")
  have pos: "bit_size \<noteq> 0 \<Longrightarrow> si_offset iter < seg_length (si_segment iter) * 8"
    using g by (cases "si_offset iter < seg_length (si_segment iter) * 8")
      (auto simp: get_next_13b_def)
  show ?thesis
  proof (cases "si_carry_len iter = 3")
    case True
    with assms SEGMENT_NUMERIC show ?thesis
      by (auto simp: qr_segment_iterator_next_def seg_remaining_def)
  next
    case False
    show ?thesis
    proof (cases "bit_size = 0")
      case True
      with assms SEGMENT_NUMERIC False g show ?thesis
        by (auto simp: qr_segment_iterator_next_def seg_remaining_def split: if_splits)
    next
      case nz: False
      from pos[OF nz] assms SEGMENT_NUMERIC False g nz show ?thesis
        by (auto simp: qr_segment_iterator_next_def seg_remaining_def Let_def split: if_splits)
    qed
  qed
qed

function add_segment_data ::
  "encoded_msg \<Rightarrow> nat \<Rightarrow> segment_iterator \<Rightarrow> encoded_msg \<times> nat" where
  "add_segment_data em offset iter =
     (case qr_segment_iterator_next iter of
        None \<Rightarrow> (em, offset)
      | Some (bits, sz, iter') \<Rightarrow>
          (case encoded_msg_push em offset bits sz of
             (em', offset') \<Rightarrow> add_segment_data em' offset' iter'))"
  by pat_completeness auto
termination
  apply (relation "measures [\<lambda>(em, offset, iter). seg_remaining iter,
                             \<lambda>(em, offset, iter). si_carry_len iter]")
   apply simp
  apply (auto dest: qr_segment_iterator_next_decreases)
  done

declare add_segment_data.simps [simp del]

text \<open>\<open>encoded_msg_add_segments\<close>: the loop over the segments (\<open>add_segments_loop\<close>), then the
  terminator and the zero bits up to the byte boundary (together \<open>encoded_msg_add_bits\<close>, which
  also returns the bit offset reached), then the padding bytes (\<open>add_padding\<close>).\<close>

fun add_segments_loop :: "encoded_msg \<Rightarrow> nat \<Rightarrow> qr_segment list \<Rightarrow> encoded_msg \<times> nat" where
  "add_segments_loop em offset [] = (em, offset)"
| "add_segments_loop em offset (seg # segs) =
     (case qr_segment_get_header seg of (bits, sz) \<Rightarrow>
      case encoded_msg_push em offset bits sz of (em1, off1) \<Rightarrow>
      case qr_segment_get_length_field seg (em_version em1) of (bits, sz) \<Rightarrow>
      case encoded_msg_push em1 off1 bits sz of (em2, off2) \<Rightarrow>
      case add_segment_data em2 off2 (qr_segment_iterator_init seg) of (em3, off3) \<Rightarrow>
        add_segments_loop em3 off3 segs)"

definition encoded_msg_add_bits :: "encoded_msg \<Rightarrow> qr_segment list \<Rightarrow> encoded_msg \<times> nat" where
  "encoded_msg_add_bits em segments =
     (case add_segments_loop em 0 segments of (em1, off1) \<Rightarrow>
      case encoded_msg_push em1 off1 MODE_STOP 4 of (em2, off2) \<Rightarrow>
        if off2 mod 8 \<noteq> 0 then encoded_msg_push em2 off2 0 (8 - off2 mod 8) else (em2, off2))"

definition add_padding :: "encoded_msg \<Rightarrow> nat \<Rightarrow> encoded_msg" where
  "add_padding em pad_offset =
     em\<lparr>em_data :=
          fold (\<lambda>i d. d[i := PADDING ! ((i AND 1) XOR (pad_offset AND 1))])
            [pad_offset..<qr_version_max_data (em_version em)] (em_data em)\<rparr>"

definition encoded_msg_add_segments :: "encoded_msg \<Rightarrow> qr_segment list \<Rightarrow> encoded_msg" where
  "encoded_msg_add_segments em segments =
     (case encoded_msg_add_bits em segments of (em3, offset) \<Rightarrow> add_padding em3 (offset div 8))"

subsection \<open>Reed-Solomon error correction\<close>

text \<open>\<open>em->poly\<close> is dereferenced without a check; \<open>encoded_msg_init\<close> always stores the
  address of one of the ten arrays.\<close>

definition MAX_EC_SIZE :: nat where "MAX_EC_SIZE = 30"
definition MAX_BLK_SIZE :: nat where "MAX_BLK_SIZE = 123"

definition EXP_TABLE :: "u8 list" where
  "EXP_TABLE =
   [1, 2, 4, 8, 16, 32, 64, 128, 29, 58, 116, 232, 205, 135, 19, 38, 76, 152, 45, 90, 180, 117,
    234, 201, 143, 3, 6, 12, 24, 48, 96, 192, 157, 39, 78, 156, 37, 74, 148, 53, 106, 212, 181,
    119, 238, 193, 159, 35, 70, 140, 5, 10, 20, 40, 80, 160, 93, 186, 105, 210, 185, 111, 222, 161,
    95, 190, 97, 194, 153, 47, 94, 188, 101, 202, 137, 15, 30, 60, 120, 240, 253, 231, 211, 187,
    107, 214, 177, 127, 254, 225, 223, 163, 91, 182, 113, 226, 217, 175, 67, 134, 17, 34, 68, 136,
    13, 26, 52, 104, 208, 189, 103, 206, 129, 31, 62, 124, 248, 237, 199, 147, 59, 118, 236, 197,
    151, 51, 102, 204, 133, 23, 46, 92, 184, 109, 218, 169, 79, 158, 33, 66, 132, 21, 42, 84, 168,
    77, 154, 41, 82, 164, 85, 170, 73, 146, 57, 114, 228, 213, 183, 115, 230, 209, 191, 99, 198,
    145, 63, 126, 252, 229, 215, 179, 123, 246, 241, 255, 227, 219, 171, 75, 150, 49, 98, 196, 149,
    55, 110, 220, 165, 87, 174, 65, 130, 25, 50, 100, 200, 141, 7, 14, 28, 56, 112, 224, 221, 167,
    83, 166, 81, 162, 89, 178, 121, 242, 249, 239, 195, 155, 43, 86, 172, 69, 138, 9, 18, 36, 72,
    144, 61, 122, 244, 245, 247, 243, 251, 235, 203, 139, 11, 22, 44, 88, 176, 125, 250, 233, 207,
    131, 27, 54, 108, 216, 173, 71, 142, 1]"

definition LOG_TABLE :: "u8 list" where
  "LOG_TABLE =
   [175, 0, 1, 25, 2, 50, 26, 198, 3, 223, 51, 238, 27, 104, 199, 75, 4, 100, 224, 14, 52, 141,
    239, 129, 28, 193, 105, 248, 200, 8, 76, 113, 5, 138, 101, 47, 225, 36, 15, 33, 53, 147, 142,
    218, 240, 18, 130, 69, 29, 181, 194, 125, 106, 39, 249, 185, 201, 154, 9, 120, 77, 228, 114,
    166, 6, 191, 139, 98, 102, 221, 48, 253, 226, 152, 37, 179, 16, 145, 34, 136, 54, 208, 148,
    206, 143, 150, 219, 189, 241, 210, 19, 92, 131, 56, 70, 64, 30, 66, 182, 163, 195, 72, 126,
    110, 107, 58, 40, 84, 250, 133, 186, 61, 202, 94, 155, 159, 10, 21, 121, 43, 78, 212, 229, 172,
    115, 243, 167, 87, 7, 112, 192, 247, 140, 128, 99, 13, 103, 74, 222, 237, 49, 197, 254, 24,
    227, 165, 153, 119, 38, 184, 180, 124, 17, 68, 146, 217, 35, 32, 137, 46, 55, 63, 209, 91, 149,
    188, 207, 205, 144, 135, 151, 178, 220, 252, 190, 97, 242, 86, 211, 171, 20, 42, 93, 158, 132,
    60, 57, 83, 71, 109, 65, 162, 31, 45, 67, 216, 183, 123, 164, 118, 196, 23, 73, 236, 127, 12,
    111, 246, 108, 161, 59, 82, 41, 157, 85, 170, 251, 96, 134, 177, 187, 204, 62, 90, 203, 89, 95,
    176, 156, 169, 160, 81, 11, 245, 22, 235, 122, 117, 44, 215, 79, 174, 213, 233, 230, 231, 173,
    232, 116, 214, 244, 234, 168, 80, 88, 175]"

definition encoded_msg_error_code_for_block ::
  "encoded_msg \<Rightarrow> nat \<Rightarrow> nat \<Rightarrow> nat \<Rightarrow> encoded_msg" where
  "encoded_msg_error_code_for_block em offset sz ec_offset =
     (let poly = poly_array (the (em_poly em));
          ec = unat (em_ec_size em);
          tmp0 = replicate (MAX_BLK_SIZE + MAX_EC_SIZE) (0 :: u8);
          tmp1 = fold (\<lambda>k t. t[k := em_data em ! (offset + k)]) [0..<sz] tmp0;
          tmp2 = fold (\<lambda>i t.
                   let lead_coeff = unat (t ! i) in
                   if lead_coeff = 0 then t
                   else
                     let log_lead_coeff = unat (LOG_TABLE ! lead_coeff)
                     in fold (\<lambda>j t. t[i + j + 1 :=
                                 t ! (i + j + 1) XOR
                                 EXP_TABLE ! ((unat (poly ! j) + log_lead_coeff) mod 255)])
                          [0..<ec] t)
                 [0..<sz] tmp1
      in em\<lparr>em_data := fold (\<lambda>k d. d[ec_offset + k := tmp2 ! (sz + k)]) [0..<ec] (em_data em)\<rparr>)"

text \<open>One round of either loop of \<open>encoded_msg_compute_error_code\<close>: the state is
  \<open>(em, offset, ec_offset)\<close>.\<close>

definition error_code_round ::
  "nat \<Rightarrow> encoded_msg \<times> nat \<times> nat \<Rightarrow> encoded_msg \<times> nat \<times> nat" where
  "error_code_round blk_size st =
     (case st of (em, offset, ec_offset) \<Rightarrow>
        (encoded_msg_error_code_for_block em offset blk_size ec_offset,
         offset + blk_size, ec_offset + unat (em_ec_size em)))"

definition encoded_msg_compute_error_code :: "encoded_msg \<Rightarrow> encoded_msg" where
  "encoded_msg_compute_error_code em =
     (let offset = 0;
          ec_offset = unat (em_g1_blocks em) * unat (em_g1_blk_size em) +
                      unat (em_g2_blocks em) * unat (em_g2_blk_size em);
          st1 = fold (\<lambda>i. error_code_round (unat (em_g1_blk_size em)))
                  [0..<unat (em_g1_blocks em)] (em, offset, ec_offset);
          st2 = fold (\<lambda>i. error_code_round (unat (em_g2_blk_size em)))
                  [0..<unat (em_g2_blocks em)] st1
      in fst st2)"

definition encoded_msg_encode :: "encoded_msg \<Rightarrow> qr_segment list \<Rightarrow> encoded_msg" where
  "encoded_msg_encode em segments =
     encoded_msg_compute_error_code (encoded_msg_add_segments em segments)"

section \<open>QR image\<close>

text \<open>
  \<open>struct qr_image\<close>: \<open>img_data\<close> is the buffer behind \<open>data\<close>.  Coordinates are \<open>u8\<close>;
  where the source compares or computes on the promoted \<open>int\<close>, the model reads the operands
  with \<open>uint\<close>, and where it stores into a \<open>u8\<close> the arithmetic is that of \<open>u8\<close>.
\<close>

record qr_image =
  img_data :: "u8 list"
  img_width :: u8
  img_stride :: u8
  img_version :: qr_version

text \<open>The rows of \<open>ALIGNMENT_PATTERNS[40][8]\<close>; the initialisers are padded with zeros.\<close>

definition alignment_row :: "u8 list \<Rightarrow> u8 list" where
  "alignment_row ps = ps @ replicate (8 - length ps) 0"

definition ALIGNMENT_PATTERNS :: "u8 list list" where
  "ALIGNMENT_PATTERNS = map alignment_row
    [[0],
     [6, 18, 0],
     [6, 22, 0],
     [6, 26, 0],
     [6, 30, 0],
     [6, 34, 0],
     [6, 22, 38, 0],
     [6, 24, 42, 0],
     [6, 26, 46, 0],
     [6, 28, 50, 0],
     [6, 30, 54, 0],
     [6, 32, 58, 0],
     [6, 34, 62, 0],
     [6, 26, 46, 66, 0],
     [6, 26, 48, 70, 0],
     [6, 26, 50, 74, 0],
     [6, 30, 54, 78, 0],
     [6, 30, 56, 82, 0],
     [6, 30, 58, 86, 0],
     [6, 34, 62, 90, 0],
     [6, 28, 50, 72, 94, 0],
     [6, 26, 50, 74, 98, 0],
     [6, 30, 54, 78, 102, 0],
     [6, 28, 54, 80, 106, 0],
     [6, 32, 58, 84, 110, 0],
     [6, 30, 58, 86, 114, 0],
     [6, 34, 62, 90, 118, 0],
     [6, 26, 50, 74, 98, 122, 0],
     [6, 30, 54, 78, 102, 126, 0],
     [6, 26, 52, 78, 104, 130, 0],
     [6, 30, 56, 82, 108, 134, 0],
     [6, 34, 60, 86, 112, 138, 0],
     [6, 30, 58, 86, 114, 142, 0],
     [6, 34, 62, 90, 118, 146, 0],
     [6, 30, 54, 78, 102, 126, 150, 0],
     [6, 24, 50, 76, 102, 128, 154, 0],
     [6, 28, 54, 80, 106, 132, 158, 0],
     [6, 32, 58, 84, 110, 136, 162, 0],
     [6, 26, 54, 82, 110, 138, 166, 0],
     [6, 30, 58, 86, 114, 142, 170, 0]]"

definition VERSION_INFORMATION :: "u32 list" where
  "VERSION_INFORMATION =
    [0x07C94, 0x085BC, 0x09A99, 0x0A4D3, 0x0BBF6, 0x0C762, 0x0D847, 0x0E60D, 0x0F928, 0x10B78,
     0x1145D, 0x12A17, 0x13532, 0x149A6, 0x15683, 0x168C9, 0x177EC, 0x18EC4, 0x191E1, 0x1AFAB,
     0x1B08E, 0x1CC1A, 0x1D33F, 0x1ED75, 0x1F250, 0x209D5, 0x216F0, 0x228BA, 0x2379F, 0x24B0B,
     0x2542E, 0x26A64, 0x27541, 0x28C69]"

definition FORMAT_INFOS_QR_L :: "u16 list" where
  "FORMAT_INFOS_QR_L = [0x77c4, 0x72f3, 0x7daa, 0x789d, 0x662f, 0x6318, 0x6c41, 0x6976]"

text \<open>\<open>None\<close> is the \<open>NULL\<close> return.\<close>

definition qr_version_alignment_pattern :: "qr_version \<Rightarrow> u8 list option" where
  "qr_version_alignment_pattern ver =
     (let v = version_index ver in if v \<ge> 40 then None else Some (ALIGNMENT_PATTERNS ! v))"

definition qr_version_info :: "qr_version \<Rightarrow> u32" where
  "qr_version_info ver =
     (if version ver \<ge> 7 \<and> version ver \<le> 40
      then VERSION_INFORMATION ! nat (uint (version ver) - 7) else 0)"

text \<open>\<open>qr_image_init\<close>: \<open>DIV_ROUND_UP(width, 8)\<close> is \<open>(width + 7) / 8\<close> on \<open>int\<close>, stored in a
  \<open>u8\<close>; \<open>stride * width\<close> is an \<open>int\<close> product.  \<open>None\<close> is the \<open>false\<close> return.\<close>

definition qr_image_init :: "encoded_msg \<Rightarrow> u8 list \<Rightarrow> nat \<Rightarrow> qr_image option" where
  "qr_image_init em data data_size =
     (let width = qr_version_width (em_version em);
          stride = (word_of_nat ((unat width + 8 - 1) div 8) :: u8);
          buffer_size = unat stride * unat width
      in if data_size < buffer_size then None
         else Some \<lparr>img_data = replicate buffer_size 0 @ drop buffer_size data,
                    img_width = width, img_stride = stride, img_version = em_version em\<rparr>)"

definition qr_image_set :: "qr_image \<Rightarrow> u8 \<Rightarrow> u8 \<Rightarrow> qr_image" where
  "qr_image_set qr x y =
     (let offset = unat y * unat (img_stride qr) + unat x div 8;
          mask = (drop_bit (unat x mod 8) 0x80 :: u8)
      in if x < img_width qr \<and> y < img_width qr
         then qr\<lparr>img_data := (img_data qr)[offset := img_data qr ! offset OR mask]\<rparr>
         else qr)"

definition qr_image_xor :: "qr_image \<Rightarrow> u8 \<Rightarrow> u8 \<Rightarrow> qr_image" where
  "qr_image_xor qr x y =
     (let offset = unat y * unat (img_stride qr) + unat x div 8;
          mask = (drop_bit (unat x mod 8) 0x80 :: u8)
      in if x < img_width qr \<and> y < img_width qr
         then qr\<lparr>img_data := (img_data qr)[offset := img_data qr ! offset XOR mask]\<rparr>
         else qr)"

text \<open>
  \<open>qr_image_draw_square\<close>: the counter \<open>k\<close> is a \<open>u8\<close> and the bound of the first loop is the
  \<open>int\<close> \<open>size + 1\<close>.  For \<open>size = 255\<close> every \<open>u8\<close> is below the bound and the loop does not
  end: that is the result \<open>None\<close>.  Otherwise \<open>k\<close> takes the values \<open>0 .. size\<close> and then
  \<open>1 .. size - 1\<close>.
\<close>

definition qr_image_draw_square :: "qr_image \<Rightarrow> u8 \<Rightarrow> u8 \<Rightarrow> u8 \<Rightarrow> qr_image option" where
  "qr_image_draw_square qr x y sz =
     (if sz = 255 then None
      else
        let qr1 = fold (\<lambda>k qr. qr_image_set (qr_image_set qr (x + of_nat k) y)
                                  (x + of_nat k) (y + sz))
                    [0..<unat sz + 1] qr;
            qr2 = fold (\<lambda>k qr. qr_image_set (qr_image_set qr x (y + of_nat k))
                                  (x + sz) (y + of_nat k))
                    [1..<unat sz] qr1
        in Some qr2)"

definition qr_image_is_finder :: "qr_image \<Rightarrow> u8 \<Rightarrow> u8 \<Rightarrow> bool" where
  "qr_image_is_finder qr x y =
     (let end = img_width qr - 8 in
      (x < 8 \<and> y < 8) \<or> (x < 8 \<and> y \<ge> end) \<or> (x \<ge> end \<and> y < 8))"

definition qr_image_draw_finders :: "qr_image \<Rightarrow> qr_image option" where
  "qr_image_draw_finders qr =
     (case qr_image_draw_square qr 1 1 4 of None \<Rightarrow> None | Some qr1 \<Rightarrow>
      case qr_image_draw_square qr1 (img_width qr1 - 6) 1 4 of None \<Rightarrow> None | Some qr2 \<Rightarrow>
      case qr_image_draw_square qr2 1 (img_width qr2 - 6) 4 of None \<Rightarrow> None | Some qr3 \<Rightarrow>
        let qr4 = fold (\<lambda>k qr.
                     qr_image_set
                       (qr_image_set (qr_image_set qr (of_nat k) 7)
                          (img_width qr - of_nat k - 1) 7)
                       (of_nat k) (img_width qr - 8))
                    [0..<8] qr3;
            qr5 = fold (\<lambda>k qr.
                     qr_image_set
                       (qr_image_set (qr_image_set qr 7 (of_nat k))
                          (img_width qr - 8) (of_nat k))
                       7 (img_width qr - 1 - of_nat k))
                    [0..<7] qr4
        in Some qr5)"

text \<open>
  \<open>qr_image_is_alignment\<close> walks \<open>positions\<close> up to the first zero, which every row of the
  table has; the pointer is dereferenced without a check.  \<open>ax - 2\<close> and \<open>ax + 2\<close> are \<open>int\<close>.
  The function returns \<open>true\<close> at the first pair that matches.
\<close>

definition qr_image_is_alignment :: "qr_image \<Rightarrow> u8 \<Rightarrow> u8 \<Rightarrow> bool" where
  "qr_image_is_alignment qr x y =
     (let positions =
            takeWhile (\<lambda>p. p \<noteq> 0) (the (qr_version_alignment_pattern (img_version qr)))
      in list_ex (\<lambda>ax. list_ex (\<lambda>ay.
           \<not> qr_image_is_finder qr ax ay \<and>
           uint x \<ge> uint ax - 2 \<and> uint x \<le> uint ax + 2 \<and>
           uint y \<ge> uint ay - 2 \<and> uint y \<le> uint ay + 2) positions) positions)"

definition qr_image_draw_alignments :: "qr_image \<Rightarrow> qr_image option" where
  "qr_image_draw_alignments qr =
     (let positions = the (qr_version_alignment_pattern (img_version qr));
          v = version (img_version qr)
      in if v = 1 then Some qr
         else
           let len = (if v \<le> 6 then 2 else if v \<le> 13 then 3 else if v \<le> 20 then 4
                      else if v \<le> 27 then 5 else if v \<le> 34 then 6 else 7 :: nat)
           in fold (\<lambda>i acc. fold (\<lambda>j acc.
                      case acc of None \<Rightarrow> None
                      | Some qr \<Rightarrow>
                          let x = positions ! i; y = positions ! j in
                          if qr_image_is_finder qr x y then Some qr
                          else qr_image_draw_square qr (x - 1) (y - 1) 2)
                    [0..<len] acc)
                [0..<len] (Some qr))"

definition qr_image_is_timing :: "u8 \<Rightarrow> u8 \<Rightarrow> bool" where
  "qr_image_is_timing x y = (x = 6 \<or> y = 6)"

text \<open>\<open>for (u8 i = 9; i < end; i += 2)\<close>: \<open>i\<close> takes the odd values from 9 below \<open>end\<close>; the
  last of them is at most 253, so \<open>i += 2\<close> does not wrap before the loop ends.\<close>

definition qr_image_draw_timing_patterns :: "qr_image \<Rightarrow> qr_image" where
  "qr_image_draw_timing_patterns qr =
     (let end = img_width qr - 8 in
      fold (\<lambda>i qr. qr_image_set (qr_image_set qr (of_nat i) 6) 6 (of_nat i))
        (filter odd [9..<unat end]) qr)"

definition qr_image_is_maskinfo :: "qr_image \<Rightarrow> u8 \<Rightarrow> u8 \<Rightarrow> bool" where
  "qr_image_is_maskinfo qr x y =
     (let end = img_width qr - 8 in
      (x \<le> 8 \<and> y = 8) \<or> (y \<le> 8 \<and> x = 8) \<or> (x = 8 \<and> y \<ge> end) \<or> (x \<ge> end \<and> y = 8))"

text \<open>In the first loop \<open>skip\<close> is 1 from \<open>k = 6\<close> on, in the second from \<open>k = 2\<close> on.\<close>

definition qr_image_draw_maskinfo :: "qr_image \<Rightarrow> qr_image" where
  "qr_image_draw_maskinfo qr =
     (let info = FORMAT_INFOS_QR_L ! 0;
          qr1 = fold (\<lambda>k qr.
                   let skip = (if k \<ge> 6 then 1 else 0 :: nat) in
                   if \<not> bit info (14 - k)
                   then qr_image_set (qr_image_set qr (of_nat (k + skip)) 8)
                          8 (img_width qr - 1 - of_nat k)
                   else qr)
                 [0..<7] qr;
          qr2 = fold (\<lambda>k qr.
                   let skip = (if k \<ge> 2 then 1 else 0 :: nat) in
                   if \<not> bit info (7 - k)
                   then qr_image_set (qr_image_set qr 8 (8 - of_nat skip - of_nat k))
                          (img_width qr - 8 + of_nat k) 8
                   else qr)
                 [0..<8] qr1
      in qr2)"

definition qr_image_is_version_info :: "qr_image \<Rightarrow> u8 \<Rightarrow> u8 \<Rightarrow> bool" where
  "qr_image_is_version_info qr x y =
     (let vinfo = qr_version_info (img_version qr);
          pos = img_width qr - 11
      in if vinfo = 0 then False
         else (x \<ge> pos \<and> uint x < uint pos + 3 \<and> y < 6) \<or>
              (y \<ge> pos \<and> uint y < uint pos + 3 \<and> x < 6))"

definition qr_image_draw_version_info :: "qr_image \<Rightarrow> qr_image" where
  "qr_image_draw_version_info qr =
     (let vinfo = qr_version_info (img_version qr);
          pos = img_width qr - 11
      in if vinfo = 0 then qr
         else fold (\<lambda>x qr. fold (\<lambda>y qr.
                if \<not> bit vinfo (x + y * 3)
                then qr_image_set (qr_image_set qr (of_nat x + pos) (of_nat y))
                       (of_nat y) (of_nat x + pos)
                else qr)
              [0..<6] qr)
            [0..<3] qr)"

definition qr_image_is_reserved :: "qr_image \<Rightarrow> u8 \<Rightarrow> u8 \<Rightarrow> bool" where
  "qr_image_is_reserved qr x y =
     (qr_image_is_alignment qr x y \<or> qr_image_is_finder qr x y \<or> qr_image_is_timing x y \<or>
      qr_image_is_maskinfo qr x y \<or> qr_image_is_version_info qr x y)"

definition qr_image_is_last :: "qr_image \<Rightarrow> u8 \<Rightarrow> u8 \<Rightarrow> bool" where
  "qr_image_is_last qr x y = (x = 0 \<and> uint y = uint (img_width qr) - 1)"

text \<open>The remainder of C on \<open>int\<close>, which truncates towards zero.\<close>

definition int_rem :: "int \<Rightarrow> int \<Rightarrow> int" where
  "int_rem a b = sgn a * (\<bar>a\<bar> mod \<bar>b\<bar>)"

text \<open>\<open>qr_image_next\<close> returns the new \<open>(*x, *y)\<close>.  \<open>qr->width - x_adj\<close> and
  \<open>qr->width - 1\<close> are \<open>int\<close>; \<open>column_type\<close> is a \<open>u8\<close>.\<close>

definition qr_image_next :: "qr_image \<Rightarrow> u8 \<Rightarrow> u8 \<Rightarrow> u8 \<times> u8" where
  "qr_image_next qr x y =
     (let x_adj = (if x \<le> 6 then x + 1 else x);
          column_type = (word_of_int (int_rem (uint (img_width qr) - uint x_adj) 4) :: u8)
      in if column_type = 2 then
           (if y > 0 then (x + 1, y - 1) else (x - 1, y))
         else if column_type = 0 then
           (if uint y < uint (img_width qr) - 1 then (x + 1, y + 1) else (x - 1, y))
         else
           (if x = 7 then (x - 2, y) else (x - 1, y)))"

text \<open>The \<open>while\<close> loop of \<open>qr_image_next_available\<close>; \<open>None\<close> when it does not end.\<close>

partial_function (option) skip_reserved :: "qr_image \<Rightarrow> u8 \<times> u8 \<Rightarrow> (u8 \<times> u8) option" where
  "skip_reserved qr p =
     (if qr_image_is_reserved qr (fst p) (snd p) \<and> \<not> qr_image_is_last qr (fst p) (snd p)
      then skip_reserved qr (qr_image_next qr (fst p) (snd p))
      else Some p)"

definition qr_image_next_available :: "qr_image \<Rightarrow> u8 \<Rightarrow> u8 \<Rightarrow> (u8 \<times> u8) option" where
  "qr_image_next_available qr x y = skip_reserved qr (qr_image_next qr x y)"

text \<open>
  \<open>qr_image_draw_data\<close>.  \<open>draw_bits\<close> is the \<open>for\<close> loop over the bits of one byte, from the
  bits still to do, with its \<open>break\<close>; \<open>draw_bytes\<close> is the \<open>while\<close> loop over the iterator;
  \<open>fill_remaining\<close> is the last \<open>while\<close> loop.  The state of the first two is the image and
  \<open>(x, y)\<close>.
\<close>

fun draw_bits ::
  "u8 \<Rightarrow> nat list \<Rightarrow> qr_image \<times> u8 \<times> u8 \<Rightarrow> (qr_image \<times> u8 \<times> u8) option" where
  "draw_bits byte [] st = Some st"
| "draw_bits byte (b # bits) (qr, x, y) =
     (let qr' = (if \<not> bit byte b then qr_image_set qr x y else qr) in
      if \<not> qr_image_is_last qr' x y then
        (case qr_image_next_available qr' x y of
           None \<Rightarrow> None
         | Some (x', y') \<Rightarrow> draw_bits byte bits (qr', x', y'))
      else Some (qr', x, y))"

function draw_bytes ::
  "encoded_msg_iterator \<Rightarrow> qr_image \<times> u8 \<times> u8 \<Rightarrow>
   (encoded_msg_iterator \<times> qr_image \<times> u8 \<times> u8) option" where
  "draw_bytes iter st =
     (case encoded_msg_iterator_next iter of
        None \<Rightarrow> Some (iter, st)
      | Some (byte, iter') \<Rightarrow>
          (case draw_bits byte (rev [0..<8]) st of
             None \<Rightarrow> None
           | Some st' \<Rightarrow> draw_bytes iter' st'))"
  by pat_completeness auto
termination
  by (relation "measure (\<lambda>(iter, st). em_ec_end (iter_em iter) - iter_offset iter)")
    (auto simp: encoded_msg_iterator_next_def Let_def split: if_splits)

declare draw_bytes.simps [simp del]

partial_function (option) fill_remaining :: "qr_image \<Rightarrow> u8 \<times> u8 \<Rightarrow> qr_image option" where
  "fill_remaining qr p =
     (if \<not> qr_image_is_last qr (fst p) (snd p) then
        fill_remaining
          (if \<not> qr_image_is_reserved qr (fst p) (snd p) then qr_image_set qr (fst p) (snd p)
           else qr)
          (qr_image_next qr (fst p) (snd p))
      else Some qr)"

definition qr_image_draw_data ::
  "qr_image \<Rightarrow> encoded_msg_iterator \<Rightarrow> (qr_image \<times> encoded_msg_iterator) option" where
  "qr_image_draw_data qr iter =
     (let x = img_width qr - 1; y = img_width qr - 1 in
      case draw_bytes iter (qr, x, y) of
        None \<Rightarrow> None
      | Some (iter', qr', x', y') \<Rightarrow>
          (case fill_remaining qr' (x', y') of
             None \<Rightarrow> None
           | Some qr'' \<Rightarrow> Some (qr'', iter')))"

text \<open>\<open>(x ^ y) % 2\<close> is computed on \<open>int\<close>.\<close>

definition qr_image_apply_mask :: "qr_image \<Rightarrow> qr_image" where
  "qr_image_apply_mask qr =
     fold (\<lambda>x qr. fold (\<lambda>y qr.
            if (uint (of_nat x :: u8) XOR uint (of_nat y :: u8)) mod 2 = 0 \<and>
               \<not> qr_image_is_reserved qr (of_nat x) (of_nat y)
            then qr_image_xor qr (of_nat x) (of_nat y) else qr)
          [0..<unat (img_width qr)] qr)
       [0..<unat (img_width qr)] qr"

definition qr_image_draw :: "qr_image \<Rightarrow> encoded_msg \<Rightarrow> qr_image option" where
  "qr_image_draw qr em =
     (let n = unat (img_stride qr) * unat (img_width qr);
          qr0 = qr\<lparr>img_data := replicate n 0 @ drop n (img_data qr)\<rparr>
      in case qr_image_draw_finders qr0 of None \<Rightarrow> None | Some qr1 \<Rightarrow>
         case qr_image_draw_alignments qr1 of None \<Rightarrow> None | Some qr2 \<Rightarrow>
           let qr3 = qr_image_draw_timing_patterns qr2;
               qr4 = qr_image_draw_version_info qr3
           in case qr_image_draw_data qr4 (encoded_msg_iterator_init em) of
                None \<Rightarrow> None
              | Some (qr5, iter) \<Rightarrow>
                  Some (qr_image_apply_mask (qr_image_draw_maskinfo qr5)))"

text \<open>
  \<open>qr_generate\<close>.  \<open>url\<close> is \<open>None\<close> for \<open>NULL\<close> and otherwise the bytes before the terminating
  zero, so that \<open>strlen(url)\<close> is their number.  The result is the return value together with
  the \<open>data\<close> buffer as the call leaves it; \<open>None\<close> when the call does not return.  The segment
  of \<open>data\<close> is read during encoding, before the image is written over the buffer.
\<close>

definition qr_generate ::
  "u8 list option \<Rightarrow> u8 list \<Rightarrow> nat \<Rightarrow> u8 \<Rightarrow> nat \<Rightarrow> u8 list \<Rightarrow> nat \<Rightarrow> (u8 \<times> u8 list) option"
  where
  "qr_generate url data data_len qr_ver data_size tmp tmp_size =
     (if data_size < 4071 \<or> tmp_size < 3706 then Some (0, data)
      else if qr_ver < 1 \<or> qr_ver > 40 then Some (0, data)
      else
        let segments =
              (case url of
                 Some u \<Rightarrow>
                   [\<lparr>seg_type = SEGMENT_BINARY, seg_data = u, seg_length = length u\<rparr>,
                    \<lparr>seg_type = SEGMENT_NUMERIC, seg_data = data, seg_length = data_len\<rparr>]
               | None \<Rightarrow>
                   [\<lparr>seg_type = SEGMENT_BINARY, seg_data = data, seg_length = data_len\<rparr>])
        in case encoded_msg_init segments qr_ver tmp tmp_size of
             None \<Rightarrow> Some (0, data)
           | Some em0 \<Rightarrow>
               let em = encoded_msg_encode em0 segments in
               case qr_image_init em data data_size of
                 None \<Rightarrow> Some (0, data)
               | Some qr \<Rightarrow>
                   (case qr_image_draw qr em of
                      None \<Rightarrow> None
                    | Some qr' \<Rightarrow> Some (img_width qr', img_data qr')))"

section \<open>Payload fitter\<close>

text \<open>
  \<open>ZSTD_compressCCtx\<close> is not part of this repository.  It is a parameter of the model: a
  function of the compression context, the capacity of the destination, the source bytes and
  the level, which returns either an error code (\<open>ZSTD_isError\<close>) or the compressed size,
  together with the context it leaves behind.  The compressed bytes themselves are not modelled.
  A size that is not an error code lies far below \<open>2^64 - 8\<close> (the error codes are the
  largest values of \<open>size_t\<close>), so \<open>QR_COMPRESSION_HEADER_SIZE + compressed_size\<close> is a sum
  of natural numbers.
\<close>

datatype zstd_result = ZSTD_error | ZSTD_size nat

type_synonym 'c compressor = "'c \<Rightarrow> nat \<Rightarrow> u8 list \<Rightarrow> int \<Rightarrow> zstd_result \<times> 'c"

definition QR_COMPRESSION_MAGIC :: u32 where "QR_COMPRESSION_MAGIC = 0x5A535444"
definition QR_COMPRESSION_HEADER_SIZE :: nat where "QR_COMPRESSION_HEADER_SIZE = 8"

text \<open>The module parameters \<open>qr_version\<close>, \<open>compression_level\<close> and \<open>recent_only\<close>.\<close>

record config =
  qr_version_param :: int
  compression_level :: int
  recent_only :: int

text \<open>
  The \<open>while (low <= high)\<close> loop of \<open>qrcon_compress_data\<close>; the state is the compression
  context and the locals \<open>low\<close>, \<open>high\<close>, \<open>best_size\<close> and \<open>best_compressed_payload\<close>.  It
  returns the context and the two \<open>best\<close> locals.

  \<open>fit_search\<close> is the loop on natural numbers.  It is the loop of the code as long as
  \<open>high < 2^64 - 1\<close>: then \<open>mid + 1\<close> is at most \<open>2^64 - 1\<close> and no \<open>size_t\<close> wraps
  (\<open>high - low\<close> and \<open>mid - 1\<close> are only computed for \<open>low \<le> high\<close> and \<open>mid \<noteq> 0\<close>).  For
  \<open>high = 2^64 - 1\<close> the assignment \<open>low = mid + 1\<close> can wrap to 0, and the loop of the code
  need not end.  \<open>fit_search_size_t\<close> below is the loop with the arithmetic of \<open>size_t\<close>;
  the two are compared in \<open>fit_search_size_t_eq\<close> and \<open>fit_search_size_t_wraps\<close>.
\<close>

function fit_search ::
  "'c compressor \<Rightarrow> u8 list \<Rightarrow> int \<Rightarrow> nat \<Rightarrow> nat \<Rightarrow>
   'c \<Rightarrow> nat \<Rightarrow> nat \<Rightarrow> nat \<Rightarrow> nat \<Rightarrow> 'c \<times> nat \<times> nat" where
  "fit_search zstd src level target_capacity dst_payload_capacity
       cctx low high best_size best_compressed_payload =
     (if low \<le> high then
        (let mid = low + (high - low) div 2 in
         if mid = 0 then (cctx, best_size, best_compressed_payload)
         else
           (case zstd cctx dst_payload_capacity (take mid src) level of
              (ZSTD_error, cctx') \<Rightarrow>
                fit_search zstd src level target_capacity dst_payload_capacity
                  cctx' low (mid - 1) best_size best_compressed_payload
            | (ZSTD_size compressed_size, cctx') \<Rightarrow>
                if QR_COMPRESSION_HEADER_SIZE + compressed_size \<le> target_capacity then
                  fit_search zstd src level target_capacity dst_payload_capacity
                    cctx' (mid + 1) high mid compressed_size
                else
                  fit_search zstd src level target_capacity dst_payload_capacity
                    cctx' low (mid - 1) best_size best_compressed_payload))
      else (cctx, best_size, best_compressed_payload))"
  by pat_completeness auto
termination
  by (relation "measure (\<lambda>(zstd, src, level, tc, dpc, cctx, low, high, best, bp). high + 1 - low)")
    auto

declare fit_search.simps [simp del]

text \<open>
  The same loop with \<open>size_t\<close> arithmetic: \<open>mid\<close> and \<open>mid + 1\<close> are taken modulo \<open>2^64\<close>.
  \<open>None\<close> when the loop does not end.
\<close>

partial_function (option) fit_search_size_t ::
  "'c compressor \<Rightarrow> u8 list \<Rightarrow> int \<Rightarrow> nat \<Rightarrow> nat \<Rightarrow>
   'c \<Rightarrow> nat \<Rightarrow> nat \<Rightarrow> nat \<Rightarrow> nat \<Rightarrow> ('c \<times> nat \<times> nat) option" where
  "fit_search_size_t zstd src level target_capacity dst_payload_capacity
       cctx low high best_size best_compressed_payload =
     (if low \<le> high then
        (let mid = (low + (high - low) div 2) mod 2 ^ 64 in
         if mid = 0 then Some (cctx, best_size, best_compressed_payload)
         else
           (case zstd cctx dst_payload_capacity (take mid src) level of
              (ZSTD_error, cctx') \<Rightarrow>
                fit_search_size_t zstd src level target_capacity dst_payload_capacity
                  cctx' low (mid - 1) best_size best_compressed_payload
            | (ZSTD_size compressed_size, cctx') \<Rightarrow>
                if QR_COMPRESSION_HEADER_SIZE + compressed_size \<le> target_capacity then
                  fit_search_size_t zstd src level target_capacity dst_payload_capacity
                    cctx' ((mid + 1) mod 2 ^ 64) high mid compressed_size
                else
                  fit_search_size_t zstd src level target_capacity dst_payload_capacity
                    cctx' low (mid - 1) best_size best_compressed_payload))
      else Some (cctx, best_size, best_compressed_payload))"

text \<open>The result of \<open>qrcon_compress_data\<close>: the return value, \<open>*processed_size\<close>, the two
  header words if they were written, and the compression context.\<close>

record 'c compress_result =
  cr_return :: nat
  cr_processed_size :: nat
  cr_header :: "(u32 \<times> u32) option"
  cr_cctx :: 'c

definition qrcon_compress_data ::
  "'c compressor \<Rightarrow> config \<Rightarrow> 'c \<Rightarrow> u8 list \<Rightarrow> nat \<Rightarrow> nat \<Rightarrow> 'c compress_result" where
  "qrcon_compress_data zstd cfg cctx src src_size dst_capacity =
     (let failure = \<lparr>cr_return = 0, cr_processed_size = 0, cr_header = None, cr_cctx = cctx\<rparr> in
      if qr_version_param cfg < 1 \<or> qr_version_param cfg > 40 then failure
      else
        let target_capacity = qr_max_data_size (word_of_int (qr_version_param cfg)) 0 in
        if target_capacity = 0 then failure
        else
          let target_capacity =
                (if target_capacity > dst_capacity then dst_capacity else target_capacity) in
          if target_capacity \<le> QR_COMPRESSION_HEADER_SIZE then failure
          else
            let dst_payload_capacity = target_capacity - QR_COMPRESSION_HEADER_SIZE;
                level = compression_level cfg;
                level = (if level < 1 then 1 else if level > 22 then 22 else level)
            in
              case fit_search zstd src level target_capacity dst_payload_capacity
                     cctx 1 src_size 0 0 of
                (cctx1, best_size, best_compressed_payload) \<Rightarrow>
                  if best_size > 0 then
                    (let header = Some (QR_COMPRESSION_MAGIC, word_of_nat best_size) in
                     case zstd cctx1 dst_payload_capacity (take best_size src) level of
                       (ZSTD_error, cctx2) \<Rightarrow>
                         \<lparr>cr_return = 0, cr_processed_size = 0, cr_header = header,
                          cr_cctx = cctx2\<rparr>
                     | (ZSTD_size compressed_size, cctx2) \<Rightarrow>
                         if compressed_size \<noteq> best_compressed_payload \<and>
                            QR_COMPRESSION_HEADER_SIZE + compressed_size > target_capacity
                         then \<lparr>cr_return = 0, cr_processed_size = 0, cr_header = header,
                               cr_cctx = cctx2\<rparr>
                         else \<lparr>cr_return = QR_COMPRESSION_HEADER_SIZE + compressed_size,
                               cr_processed_size = best_size, cr_header = header,
                               cr_cctx = cctx2\<rparr>)
                  else \<lparr>cr_return = 0, cr_processed_size = 0, cr_header = None,
                        cr_cctx = cctx1\<rparr>)"


section \<open>History driver\<close>







section \<open>Notions used in the statements and proofs\<close>

text \<open>Two messages have the same shape when they differ at most in the bytes of the
  buffer, whose length is the same.\<close>

definition same_shape :: "encoded_msg \<Rightarrow> encoded_msg \<Rightarrow> bool" where
  "same_shape em em' \<longleftrightarrow>
     (\<exists>d. em' = em\<lparr>em_data := d\<rparr> \<and> length d = length (em_data em))"

text \<open>In the words of the specification: \<open>E(v)\<close> is the length of the generator polynomial
  of version \<open>v\<close>, the number of blocks is \<open>g1 + g2\<close>, and the encoded message has
  \<open>D(v) + E(v) * (g1 + g2)\<close> bytes.\<close>

definition spec_E :: "nat \<Rightarrow> nat" where
  "spec_E v = (case vp_poly (VPARAM ! (v - 1)) of None \<Rightarrow> 0 | Some p \<Rightarrow> length (poly_array p))"

definition spec_blocks :: "nat \<Rightarrow> nat" where
  "spec_blocks v = unat (vp_g1_blocks (VPARAM ! (v - 1))) + unat (vp_g2_blocks (VPARAM ! (v - 1)))"

definition spec_total :: "nat \<Rightarrow> nat" where
  "spec_total v = spec_D v + spec_E v * spec_blocks v"

text \<open>The iterator after one more call of \<open>encoded_msg_iterator_next\<close>.\<close>

definition encoded_msg_iterator_advance :: "encoded_msg_iterator \<Rightarrow> encoded_msg_iterator" where
  "encoded_msg_iterator_advance iter =
     (case encoded_msg_iterator_next iter of None \<Rightarrow> iter | Some (byte, iter') \<Rightarrow> iter')"

text \<open>Two inputs used in the examples: the byte segment \<open>"HELLO\n"\<close> of the
  specification's minimum-symbol scenario, and a four-byte numeric segment.\<close>

definition hello_segments :: "qr_segment list" where
  "hello_segments =
     [\<lparr>seg_type = SEGMENT_BINARY, seg_data = [72, 69, 76, 76, 79, 10], seg_length = 6\<rparr>]"

definition numeric_example :: qr_segment where
  "numeric_example =
     \<lparr>seg_type = SEGMENT_NUMERIC, seg_data = [0x04, 0xFF, 0x00, 0x00], seg_length = 4\<rparr>"

text \<open>The fit predicate of the specification, for a compressor whose result on the prefix of
  length \<open>m\<close> is \<open>R m\<close>.\<close>

definition fits :: "(nat \<Rightarrow> zstd_result) \<Rightarrow> nat \<Rightarrow> nat \<Rightarrow> bool" where
  "fits R target_capacity m =
     (case R m of ZSTD_error \<Rightarrow> False
      | ZSTD_size k \<Rightarrow> QR_COMPRESSION_HEADER_SIZE + k \<le> target_capacity)"

text \<open>The target capacity and the compression level that \<open>qrcon_compress_data\<close> works with,
  and the condition under which it gets as far as the search.\<close>

definition fit_target :: "config \<Rightarrow> nat \<Rightarrow> nat" where
  "fit_target cfg dst_capacity =
     min (qr_max_data_size (word_of_int (qr_version_param cfg)) 0) dst_capacity"

definition fit_level :: "config \<Rightarrow> int" where
  "fit_level cfg =
     (if compression_level cfg < 1 then 1
      else if compression_level cfg > 22 then 22 else compression_level cfg)"

definition fit_config_ok :: "config \<Rightarrow> nat \<Rightarrow> bool" where
  "fit_config_ok cfg dst_capacity \<longleftrightarrow>
     1 \<le> qr_version_param cfg \<and> qr_version_param cfg \<le> 40 \<and>
     QR_COMPRESSION_HEADER_SIZE < dst_capacity"

text \<open>Example compressors: one that stores its input, one that always fails, and one whose
  output size depends on how often the context was used.\<close>

definition store_compressor :: "unit compressor" where
  "store_compressor c cap s level = (ZSTD_size (length s), c)"

definition failing_compressor :: "unit compressor" where
  "failing_compressor c cap s level = (ZSTD_error, c)"

definition counting_compressor :: "nat compressor" where
  "counting_compressor c cap s level = (ZSTD_size (if even c then 1 else 2), Suc c)"

definition example_config :: config where
  "example_config = \<lparr>qr_version_param = 1, compression_level = 3, recent_only = 0\<rparr>"

text \<open>
  Notions for the walk over the modules.  The widths of the forty versions are the numbers
  \<open>W = 4 * v + 17\<close>.  \<open>col_type\<close> and \<open>next_nat\<close> are \<open>column_type\<close> and \<open>qr_image_next\<close>
  on natural numbers; \<open>walk_rank\<close> numbers the modules against the order in which the walk
  visits them: columns are paired from the right (column 6 stands alone), \<open>walk_unit\<close> is the
  number of the pair, and within a pair the rank follows the direction of the pair.
\<close>

definition wf_width :: "nat \<Rightarrow> bool" where
  "wf_width W \<longleftrightarrow> W mod 4 = 1 \<and> 21 \<le> W \<and> W \<le> 177"

definition col_type :: "nat \<Rightarrow> nat \<Rightarrow> nat" where
  "col_type W x = (W - (if x \<le> 6 then x + 1 else x)) mod 4"

definition next_nat :: "nat \<Rightarrow> nat \<Rightarrow> nat \<Rightarrow> nat \<times> nat" where
  "next_nat W x y =
     (if col_type W x = 2 then (if y > 0 then (x + 1, y - 1) else (x - 1, y))
      else if col_type W x = 0 then (if y < W - 1 then (x + 1, y + 1) else (x - 1, y))
      else (if x = 7 then (x - 2, y) else (x - 1, y)))"

definition walk_unit :: "nat \<Rightarrow> nat" where
  "walk_unit x =
     (if x \<le> 1 then 0 else if x \<le> 3 then 1 else if x \<le> 5 then 2 else if x = 6 then 3
      else 4 + (x - 7) div 2)"

definition walk_rank :: "nat \<Rightarrow> nat \<Rightarrow> nat \<Rightarrow> nat" where
  "walk_rank W x y =
     (if x = 6 then (if y = 0 then 1201 else 1600 + 2 * y)
      else walk_unit x * 400 +
           (if col_type W x = 1 then 2 * y + 2
            else if col_type W x = 2 then 2 * y + 1
            else if col_type W x = 3 then 2 * (W - 1 - y) + 2
            else 2 * (W - 1 - y) + 1))"

text \<open>A position on the image and its rank; two images have the same frame when they differ
  at most in the bytes of the buffer.\<close>

definition on_image :: "qr_image \<Rightarrow> u8 \<times> u8 \<Rightarrow> bool" where
  "on_image qr p \<longleftrightarrow> unat (fst p) < unat (img_width qr) \<and> unat (snd p) < unat (img_width qr)"

definition image_rank :: "qr_image \<Rightarrow> u8 \<times> u8 \<Rightarrow> nat" where
  "image_rank qr p = walk_rank (unat (img_width qr)) (unat (fst p)) (unat (snd p))"

definition same_frame :: "qr_image \<Rightarrow> qr_image \<Rightarrow> bool" where
  "same_frame qr qr' \<longleftrightarrow>
     img_width qr' = img_width qr \<and> img_stride qr' = img_stride qr \<and>
     img_version qr' = img_version qr"

section \<open>Facts about the tables\<close>

lemma version_index_valid:
  assumes "1 \<le> v" "v \<le> 40"
  shows "version_index \<lparr>version = v\<rparr> = unat v - 1 \<and> unat v - 1 < 40"
proof -
  from assms(1) have a: "1 \<le> unat v" by (simp add: word_le_nat_alt)
  from assms(2) have b: "unat v \<le> 40" by (simp add: word_le_nat_alt)
  have u: "uint v = int (unat v)" by simp
  have "uint v - 1 = int (unat v - 1)" unfolding u using a by (simp add: of_nat_diff)
  then have "nat ((uint v - 1) mod 2 ^ 64) = unat v - 1" using b by simp
  then show ?thesis using a b
    by (simp add: version_index_def size_t_of_int_def)
qed

lemma valid_version_cases:
  assumes "1 \<le> (v::u8)" "v \<le> 40"
  shows "v \<in> set (map of_nat [1..<41])"
proof -
  from assms(1) have a: "1 \<le> unat v" by (simp add: word_le_nat_alt)
  from assms(2) have b: "unat v \<le> 40" by (simp add: word_le_nat_alt)
  have "unat v \<in> set [1..<41]" using a b by simp
  then have "of_nat (unat v) \<in> (of_nat :: nat \<Rightarrow> u8) ` set [1..<41]"
    by (rule imageI)
  then show ?thesis by simp
qed

lemma valid_version_induct:
  assumes "1 \<le> (v::u8)" "v \<le> 40" and "list_all P (map of_nat [1..<41])"
  shows "P v"
  using valid_version_cases[OF assms(1,2)] assms(3) by (simp only: list_all_iff)

lemma D_table:
  "list_all (\<lambda>v. qr_version_max_data \<lparr>version = v\<rparr> = spec_D (unat v) \<and>
                 3 \<le> spec_D (unat v) \<and> spec_D (unat v) < 2 ^ 64)
     (map of_nat [1..<41])"
  by (simp add: upt_conv_Cons qr_version_max_data_def spec_D_def version_index_def
      size_t_of_int_def VPARAM_def vparam_def)

lemma qr_max_data_size_invalid:
  "\<not> (1 \<le> v \<and> v \<le> 40) \<Longrightarrow> qr_max_data_size v url_len = 0"
  by (auto simp: qr_max_data_size_def not_le)

text \<open>
  Claim C3.  For every version \<open>v\<close> in 1..40, \<open>qr_max_data_size v 0\<close> is \<open>D(v) - 3\<close>
  (a true subtraction: it is stated over the integers), where \<open>D(v) = g1 * s1 + g2 * (s1 + 1)\<close>
  is read from \<open>VPARAM\<close> and is what \<open>qr_version_max_data\<close> computes; for every other
  \<open>u8\<close> version the result is 0.
\<close>

theorem qr_max_data_size_no_url:
  "(1 \<le> v \<and> v \<le> 40 \<longrightarrow>
      int (qr_max_data_size v 0) = int (spec_D (unat v)) - 3 \<and>
      qr_version_max_data \<lparr>version = v\<rparr> = spec_D (unat v)) \<and>
   (\<not> (1 \<le> v \<and> v \<le> 40) \<longrightarrow> qr_max_data_size v 0 = 0)"
proof (intro conjI impI)
  assume v: "1 \<le> v \<and> v \<le> 40"
  then have d: "qr_version_max_data \<lparr>version = v\<rparr> = spec_D (unat v) \<and>
      3 \<le> spec_D (unat v) \<and> spec_D (unat v) < 2 ^ 64"
    using valid_version_induct[OF _ _ D_table, of v] by simp
  then show "qr_version_max_data \<lparr>version = v\<rparr> = spec_D (unat v)" by simp
  from v have nv: "\<not> (v < 1 \<or> v > 40)" by (auto simp: word_le_nat_alt word_less_nat_alt)
  have "size_t_sub (spec_D (unat v)) 3 = spec_D (unat v) - 3"
    using d by (simp add: size_t_sub_def nat_diff_distrib)
  then show "int (qr_max_data_size v 0) = int (spec_D (unat v)) - 3"
    using d nv by (simp add: qr_max_data_size_def Let_def of_nat_diff)
next
  assume "\<not> (1 \<le> v \<and> v \<le> 40)"
  then show "qr_max_data_size v 0 = 0" by (rule qr_max_data_size_invalid)
qed

theorem qr_max_data_size_no_url_witness:
  "int (qr_max_data_size 10 0) = int (spec_D (unat (10::u8))) - 3 \<and>
   qr_version_max_data \<lparr>version = 10\<rparr> = spec_D (unat (10::u8)) \<and>
   qr_max_data_size 10 0 = 271 \<and> qr_max_data_size 0 0 = 0 \<and> qr_max_data_size 41 0 = 0"
  using qr_max_data_size_no_url[of 10] qr_max_data_size_no_url[of 0] qr_max_data_size_no_url[of 41]
  by (simp add: spec_D_def VPARAM_def vparam_def)

text \<open>
  Claim C9 says \<open>D(20) = 485\<close> and \<open>C(20) = 482\<close>.  The table entry of version 20 is
  \<open>{P28, 3, 5, 107}\<close>, so the code computes \<open>3 * 107 + 5 * 108 = 861\<close> data codewords and a
  byte-mode capacity of 858; the claimed values do not hold.
\<close>

theorem version_20_capacity_counterexample:
  "\<not> (qr_version_max_data \<lparr>version = 20\<rparr> = 485 \<and> qr_max_data_size 20 0 = 482)"
  by (simp add: qr_version_max_data_def version_index_def size_t_of_int_def VPARAM_def vparam_def)

text \<open>
  Claim C9, amended.  For version 20 the data-codeword capacity is \<open>D(20) = 861\<close> and the
  byte-mode capacity is \<open>C(20) = qr_max_data_size 20 0 = 858\<close>.
\<close>

theorem version_20_capacity:
  "qr_version_max_data \<lparr>version = 20\<rparr> = 861 \<and> spec_D 20 = 861 \<and> qr_max_data_size 20 0 = 858"
  by (simp add: qr_max_data_size_def qr_version_max_data_def spec_D_def version_index_def
      size_t_of_int_def size_t_sub_def VPARAM_def vparam_def)

section \<open>The encoder\<close>

lemma same_shape_refl: "same_shape em em"
  unfolding same_shape_def by (rule exI[of _ "em_data em"]) simp

lemma same_shape_trans: "same_shape a b \<Longrightarrow> same_shape b c \<Longrightarrow> same_shape a c"
  unfolding same_shape_def by auto

lemma same_shape_fields:
  assumes "same_shape em em'"
  shows "em_ec_size em' = em_ec_size em" "em_g1_blocks em' = em_g1_blocks em"
    "em_g2_blocks em' = em_g2_blocks em" "em_g1_blk_size em' = em_g1_blk_size em"
    "em_g2_blk_size em' = em_g2_blk_size em" "em_poly em' = em_poly em"
    "em_version em' = em_version em" "length (em_data em') = length (em_data em)"
  using assms unfolding same_shape_def by auto

lemma same_shape_update:
  "length d = length (em_data em) \<Longrightarrow> same_shape em (em\<lparr>em_data := d\<rparr>)"
  unfolding same_shape_def by auto

lemma length_fold_update:
  "length (fold (\<lambda>i d. d[f i := g i d]) xs d0) = length d0"
  by (induction xs arbitrary: d0) auto

lemma encoded_msg_push_shape:
  "same_shape em (fst (encoded_msg_push em offset number len_bits))"
  by (simp add: encoded_msg_push_def Let_def same_shape_update)

lemma add_segment_data_shape: "same_shape em (fst (add_segment_data em offset iter))"
proof (induction em offset iter rule: add_segment_data.induct)
  case (1 em offset iter)
  show ?case
  proof (cases "qr_segment_iterator_next iter")
    case None
    then show ?thesis
      by (simp add: add_segment_data.simps[of em offset iter] same_shape_refl)
  next
    case (Some r)
    obtain bits sz iter' where r: "r = (bits, sz, iter')" by (cases r) auto
    obtain em' offset' where p: "encoded_msg_push em offset bits sz = (em', offset')"
      by (cases "encoded_msg_push em offset bits sz") auto
    have a: "same_shape em em'" using encoded_msg_push_shape[of em offset bits sz] p by simp
    have b: "same_shape em' (fst (add_segment_data em' offset' iter'))"
      by (rule "1.IH"[OF Some, of bits "(sz, iter')" sz iter' em' offset']) (simp_all add: r p)
    show ?thesis using Some r p same_shape_trans[OF a b]
      by (simp add: add_segment_data.simps[of em offset iter])
  qed
qed

lemma add_segments_loop_shape: "same_shape em (fst (add_segments_loop em offset segs))"
proof (induction segs arbitrary: em offset)
  case Nil
  show ?case by (simp add: same_shape_refl)
next
  case (Cons seg segs)
  obtain bits sz where h: "qr_segment_get_header seg = (bits, sz)"
    by (cases "qr_segment_get_header seg") auto
  obtain em1 off1 where p1: "encoded_msg_push em offset bits sz = (em1, off1)"
    by (cases "encoded_msg_push em offset bits sz") auto
  obtain bits2 sz2 where l: "qr_segment_get_length_field seg (em_version em1) = (bits2, sz2)"
    by (cases "qr_segment_get_length_field seg (em_version em1)") auto
  obtain em2 off2 where p2: "encoded_msg_push em1 off1 bits2 sz2 = (em2, off2)"
    by (cases "encoded_msg_push em1 off1 bits2 sz2") auto
  obtain em3 off3 where d: "add_segment_data em2 off2 (qr_segment_iterator_init seg) = (em3, off3)"
    by (cases "add_segment_data em2 off2 (qr_segment_iterator_init seg)") auto
  have a: "same_shape em em1" using encoded_msg_push_shape[of em offset bits sz] p1 by simp
  have b: "same_shape em1 em2" using encoded_msg_push_shape[of em1 off1 bits2 sz2] p2 by simp
  have c: "same_shape em2 em3"
    using add_segment_data_shape[of em2 off2 "qr_segment_iterator_init seg"] d by simp
  have e: "same_shape em3 (fst (add_segments_loop em3 off3 segs))" by (rule Cons.IH)
  show ?case using h p1 l p2 d
    same_shape_trans[OF same_shape_trans[OF same_shape_trans[OF a b] c] e] by simp
qed

lemma encoded_msg_add_bits_shape: "same_shape em (fst (encoded_msg_add_bits em segs))"
proof -
  obtain em1 off1 where a: "add_segments_loop em 0 segs = (em1, off1)"
    by (cases "add_segments_loop em 0 segs") auto
  obtain em2 off2 where b: "encoded_msg_push em1 off1 MODE_STOP 4 = (em2, off2)"
    by (cases "encoded_msg_push em1 off1 MODE_STOP 4") auto
  have s1: "same_shape em em1" using add_segments_loop_shape[of em 0 segs] a by simp
  have s2: "same_shape em1 em2" using encoded_msg_push_shape[of em1 off1 MODE_STOP 4] b by simp
  have s3: "same_shape em2 (fst (encoded_msg_push em2 off2 0 (8 - off2 mod 8)))"
    by (rule encoded_msg_push_shape)
  show ?thesis
    using a b same_shape_trans[OF s1 s2] same_shape_trans[OF same_shape_trans[OF s1 s2] s3]
    by (simp add: encoded_msg_add_bits_def)
qed

lemma add_padding_shape: "same_shape em (add_padding em pad_offset)"
  by (simp add: add_padding_def same_shape_update length_fold_update)

lemma encoded_msg_add_segments_shape: "same_shape em (encoded_msg_add_segments em segs)"
proof -
  obtain em3 off where a: "encoded_msg_add_bits em segs = (em3, off)"
    by (cases "encoded_msg_add_bits em segs") auto
  have "same_shape em em3" using encoded_msg_add_bits_shape[of em segs] a by simp
  from same_shape_trans[OF this add_padding_shape[of em3 "off div 8"]] a
  show ?thesis by (simp add: encoded_msg_add_segments_def)
qed

lemma encoded_msg_error_code_for_block_shape:
  "same_shape em (encoded_msg_error_code_for_block em offset sz ec_offset)"
  by (simp add: encoded_msg_error_code_for_block_def Let_def same_shape_update length_fold_update)

lemma error_code_round_pair:
  "error_code_round bs (em, offset, ec_offset) =
     (encoded_msg_error_code_for_block em offset bs ec_offset,
      offset + bs, ec_offset + unat (em_ec_size em))"
  by (simp add: error_code_round_def)

lemma error_code_rounds_shape:
  "same_shape em (fst (fold (\<lambda>i. error_code_round bs) xs (em, offset, ec_offset)))"
proof (induction xs arbitrary: em offset ec_offset)
  case Nil
  show ?case by (simp add: same_shape_refl)
next
  case (Cons x xs)
  let ?em1 = "encoded_msg_error_code_for_block em offset bs ec_offset"
  have a: "same_shape em ?em1" by (rule encoded_msg_error_code_for_block_shape)
  have b: "same_shape ?em1 (fst (fold (\<lambda>i. error_code_round bs) xs
      (?em1, offset + bs, ec_offset + unat (em_ec_size em))))" by (rule Cons.IH)
  show ?case using same_shape_trans[OF a b] by (simp add: error_code_round_pair)
qed

lemma encoded_msg_compute_error_code_shape:
  "same_shape em (encoded_msg_compute_error_code em)"
proof -
  let ?st1 = "fold (\<lambda>i. error_code_round (unat (em_g1_blk_size em)))
                  [0..<unat (em_g1_blocks em)] (em, 0, unat (em_g1_blocks em) * unat (em_g1_blk_size em) +
                      unat (em_g2_blocks em) * unat (em_g2_blk_size em))"
  obtain em1 o1 e1 where s: "?st1 = (em1, o1, e1)" by (cases ?st1) auto
  have a: "same_shape em em1"
    using error_code_rounds_shape[of em "unat (em_g1_blk_size em)"
        "[0..<unat (em_g1_blocks em)]" 0 "unat (em_g1_blocks em) * unat (em_g1_blk_size em) +
                      unat (em_g2_blocks em) * unat (em_g2_blk_size em)"] s by simp
  have b: "same_shape em1 (fst (fold (\<lambda>i. error_code_round (unat (em_g2_blk_size em)))
                  [0..<unat (em_g2_blocks em)] (em1, o1, e1)))"
    by (rule error_code_rounds_shape)
  show ?thesis using same_shape_trans[OF a b] s
    by (simp add: encoded_msg_compute_error_code_def Let_def)
qed

lemma encoded_msg_encode_shape: "same_shape em (encoded_msg_encode em segs)"
  unfolding encoded_msg_encode_def
  by (rule same_shape_trans[OF encoded_msg_add_segments_shape encoded_msg_compute_error_code_shape])

lemma version_table:
  "list_all (\<lambda>v. let ver = \<lparr>version = v\<rparr> in
       1 \<le> qr_version_g1_blocks ver \<and> qr_version_g1_blocks ver < 256 \<and>
       qr_version_g2_blocks ver < 256 \<and>
       1 \<le> qr_version_g1_blk_size ver \<and> qr_version_g1_blk_size ver + 1 < 256 \<and>
       qr_version_ec_size ver < 256 \<and>
       qr_version_ec_size ver = spec_E (unat v) \<and>
       qr_version_g1_blocks ver + qr_version_g2_blocks ver = spec_blocks (unat v) \<and>
       qr_version_max_data ver =
         qr_version_g1_blocks ver * qr_version_g1_blk_size ver +
         qr_version_g2_blocks ver * (qr_version_g1_blk_size ver + 1) \<and>
       qr_version_poly ver \<noteq> None \<and>
       spec_total (unat v) \<le> 3706)
     (map of_nat [1..<41])"
  by (simp add: upt_conv_Cons Let_def qr_version_max_data_def qr_version_g1_blocks_def
      qr_version_g2_blocks_def qr_version_g1_blk_size_def qr_version_ec_size_def
      qr_version_poly_def spec_E_def spec_blocks_def spec_total_def spec_D_def
      version_index_def size_t_of_int_def VPARAM_def vparam_def)

lemma version_range_iff: "(\<not> (v < 1 \<or> v > 40)) = (1 \<le> v \<and> v \<le> (40::u8))"
  by (auto simp: word_le_nat_alt word_less_nat_alt unat_gt_0 Suc_le_eq)

lemma encoded_msg_init_fields:
  assumes "encoded_msg_init segs v tmp tmp_size = Some em"
  defines "ver \<equiv> \<lparr>version = v\<rparr>"
  shows "1 \<le> v \<and> v \<le> 40"
    and "em_version em = ver"
    and "unat (em_g1_blocks em) = qr_version_g1_blocks ver"
    and "unat (em_g2_blocks em) = qr_version_g2_blocks ver"
    and "unat (em_g1_blk_size em) = qr_version_g1_blk_size ver"
    and "unat (em_g2_blk_size em) = qr_version_g1_blk_size ver + 1"
    and "unat (em_ec_size em) = qr_version_ec_size ver"
    and "em_poly em = qr_version_poly ver"
    and "qr_version_max_data ver +
           qr_version_ec_size ver * (qr_version_g1_blocks ver + qr_version_g2_blocks ver)
         \<le> length (em_data em)"
    and "(\<Sum>seg\<leftarrow>segs. qr_segment_total_size_bits seg ver) + 4 \<le> qr_version_max_data ver * 8"
    and "tmp_size \<le> length (em_data em)"
proof -
  from assms(1) have v: "1 \<le> v \<and> v \<le> 40"
    unfolding encoded_msg_init_def using version_range_iff[of v] by (auto split: if_splits)
  then show "1 \<le> v \<and> v \<le> 40" .
  from v have t: "qr_version_g1_blocks ver < 256 \<and> qr_version_g2_blocks ver < 256 \<and>
       qr_version_g1_blk_size ver + 1 < 256 \<and> qr_version_ec_size ver < 256"
    using valid_version_induct[OF _ _ version_table, of v] by (simp add: Let_def ver_def)
  from v have nv: "\<not> (v < 1 \<or> v > 40)" by (simp only: version_range_iff)
  from assms(1) nv have em: "em =
      \<lparr>em_data = replicate tmp_size 0 @ drop tmp_size tmp,
        em_ec_size = word_of_nat (qr_version_ec_size ver),
        em_g1_blocks = word_of_nat (qr_version_g1_blocks ver),
        em_g2_blocks = word_of_nat (qr_version_g2_blocks ver),
        em_g1_blk_size = word_of_nat (qr_version_g1_blk_size ver),
        em_g2_blk_size = word_of_nat (qr_version_g1_blk_size ver + 1),
        em_poly = qr_version_poly ver,
        em_version = ver\<rparr>"
    and fit: "(\<Sum>seg\<leftarrow>segs. qr_segment_total_size_bits seg ver) + 4 \<le> qr_version_max_data ver * 8"
    and sz: "qr_version_max_data ver +
           qr_version_ec_size ver * (qr_version_g1_blocks ver + qr_version_g2_blocks ver)
         \<le> tmp_size"
    unfolding encoded_msg_init_def ver_def
    by (simp_all add: Let_def not_less split: if_splits)
  show "em_version em = ver" by (simp add: em)
  show "unat (em_g1_blocks em) = qr_version_g1_blocks ver" using t by (simp add: em unat_of_nat)
  show "unat (em_g2_blocks em) = qr_version_g2_blocks ver" using t by (simp add: em unat_of_nat)
  show "unat (em_g1_blk_size em) = qr_version_g1_blk_size ver" using t by (simp add: em unat_of_nat)
  show "unat (em_g2_blk_size em) = qr_version_g1_blk_size ver + 1"
    using t by (simp add: em unat_of_nat del: of_nat_add of_nat_Suc)
  show "unat (em_ec_size em) = qr_version_ec_size ver" using t by (simp add: em unat_of_nat)
  show "em_poly em = qr_version_poly ver" by (simp add: em)
  show "tmp_size \<le> length (em_data em)" by (simp add: em)
  then show "qr_version_max_data ver +
           qr_version_ec_size ver * (qr_version_g1_blocks ver + qr_version_g2_blocks ver)
         \<le> length (em_data em)" using sz by simp
  show "(\<Sum>seg\<leftarrow>segs. qr_segment_total_size_bits seg ver) + 4 \<le> qr_version_max_data ver * 8"
    by (rule fit)
qed

lemma iterator_index_lt:
  assumes g2s: "unat (em_g2_blk_size em) = unat (em_g1_blk_size em) + 1"
    and off: "off < em_ec_end em"
  shows "encoded_msg_iterator_index em off < em_ec_end em"
proof -
  define g1 where "g1 = unat (em_g1_blocks em)"
  define g2 where "g2 = unat (em_g2_blocks em)"
  define s1 where "s1 = unat (em_g1_blk_size em)"
  define E where "E = unat (em_ec_size em)"
  define B where "B = g1 + g2"
  have s2: "unat (em_g2_blk_size em) = s1 + 1" using g2s by (simp add: s1_def)
  have blocks: "em_blocks em = B" by (simp add: em_blocks_def B_def g1_def g2_def)
  have g1e: "em_g1_end em = g1 * s1" by (simp add: em_g1_end_def g1_def s1_def)
  have g2e: "em_g2_end em = g1 * s1 + g2 * (s1 + 1)"
    by (simp add: em_g2_end_def g1e s2 g2_def)
  have ece: "em_ec_end em = g1 * s1 + g2 * (s1 + 1) + E * B"
    by (simp add: em_ec_end_def g2e blocks E_def)
  show ?thesis
  proof (cases "off < s1 * B")
    case True
    then have Bpos: "0 < B" by (cases B) auto
    have bo: "off div B < s1" using True by (simp add: less_mult_imp_div_less)
    have bl: "off mod B < B" using Bpos by simp
    show ?thesis
    proof (cases "off mod B < g1")
      case lt: True
      then have "(off mod B + 1) * s1 \<le> g1 * s1" by (intro mult_le_mono1) simp
      then have "off mod B * s1 + off div B < g1 * s1" using bo by (simp add: algebra_simps)
      then show ?thesis using True lt
        by (simp add: encoded_msg_iterator_index_def Let_def blocks g1e ece s1_def[symmetric]
            g1_def[symmetric])
    next
      case ge: False
      then have "off mod B - g1 < g2" using bl by (simp add: B_def)
      then have "(off mod B - g1 + 1) * (s1 + 1) \<le> g2 * (s1 + 1)" by (intro mult_le_mono1) simp
      then have "(off mod B - g1) * (s1 + 1) + off div B < g2 * (s1 + 1)"
        using bo by (simp add: algebra_simps)
      then show ?thesis using True ge
        by (simp add: encoded_msg_iterator_index_def Let_def blocks g1e ece s1_def[symmetric]
            g1_def[symmetric] s2)
    qed
  next
    case p1: False
    show ?thesis
    proof (cases "off < g1 * s1 + g2 * (s1 + 1)")
      case True
      have "g1 * s1 + g2 * (s1 + 1) = B * s1 + g2" by (simp add: B_def algebra_simps)
      then have b2: "off - B * s1 < g2" using True p1 by (simp add: mult.commute)
      then have g2pos: "1 \<le> g2" by simp
      have "(off - B * s1) div (s1 + 1) * (s1 + 1) \<le> off - B * s1"
        by (rule div_times_less_eq_dividend)
      then have a: "(off - B * s1) div (s1 + 1) * (s1 + 1) + (s1 + 1) \<le> g2 - 1 + (s1 + 1)"
        using b2 by simp
      obtain k where k: "g2 = Suc k" using g2pos by (cases g2) auto
      have "g2 - 1 + (s1 + 1) \<le> g2 * (s1 + 1)" unfolding k by simp
      with a have "(off - B * s1) div (s1 + 1) * (s1 + 1) + (s1 + 1) \<le> g2 * (s1 + 1)"
        by linarith
      then have "g1 * s1 + (off - B * s1) div (s1 + 1) * (s1 + 1) + (s1 + 1) - 1
                   < g1 * s1 + g2 * (s1 + 1)" by simp
      then show ?thesis using p1 True
        by (simp add: encoded_msg_iterator_index_def Let_def blocks g1e g2e ece
            s1_def[symmetric] s2)
    next
      case p2: False
      from off have eo: "off - (g1 * s1 + g2 * (s1 + 1)) < E * B" using p2 by (simp add: ece)
      then have Bpos: "0 < B" by (cases B) auto
      let ?eo = "off - (g1 * s1 + g2 * (s1 + 1))"
      have bo: "?eo div B < E" using eo by (simp add: less_mult_imp_div_less)
      have bl: "?eo mod B < B" using Bpos by simp
      then have "(?eo mod B + 1) * E \<le> B * E" by (intro mult_le_mono1) simp
      then have "?eo mod B * E + ?eo div B < E * B" using bo by (simp add: algebra_simps)
      then show ?thesis using p1 p2
        by (simp add: encoded_msg_iterator_index_def Let_def blocks g1e g2e ece
            s1_def[symmetric] s2 E_def[symmetric])
    qed
  qed
qed

lemma advance_step:
  "iter_em (encoded_msg_iterator_advance it) = iter_em it"
  "iter_offset (encoded_msg_iterator_advance it) =
     (if iter_offset it < em_ec_end (iter_em it) then iter_offset it + 1 else iter_offset it)"
  by (simp_all add: encoded_msg_iterator_advance_def encoded_msg_iterator_next_def Let_def)

lemma advance_funpow:
  "iter_em ((encoded_msg_iterator_advance ^^ k) (encoded_msg_iterator_init em)) = em \<and>
   iter_offset ((encoded_msg_iterator_advance ^^ k) (encoded_msg_iterator_init em)) =
     min k (em_ec_end em)"
proof (induction k)
  case 0
  show ?case by (simp add: encoded_msg_iterator_init_def)
next
  case (Suc k)
  then show ?case by (simp add: advance_step min_def)
qed

lemma same_shape_ends:
  assumes "same_shape em em'"
  shows "em_ec_end em' = em_ec_end em" "em_g2_end em' = em_g2_end em"
    "em_g1_end em' = em_g1_end em" "em_blocks em' = em_blocks em"
    "encoded_msg_iterator_index em' off = encoded_msg_iterator_index em off"
  using same_shape_fields[OF assms]
  by (simp_all add: em_ec_end_def em_g2_end_def em_g1_end_def em_blocks_def
      encoded_msg_iterator_index_def Let_def)

lemma encoded_msg_init_ends:
  assumes "encoded_msg_init segs v tmp tmp_size = Some em"
  shows "em_ec_end em = spec_total (unat v)" "em_g2_end em = spec_D (unat v)"
    "unat (em_g2_blk_size em) = unat (em_g1_blk_size em) + 1"
    "spec_total (unat v) \<le> length (em_data em)"
    "qr_version_max_data (em_version em) = spec_D (unat v)"
proof -
  let ?ver = "\<lparr>version = v\<rparr>"
  note f = encoded_msg_init_fields[OF assms]
  from f(1) have t: "qr_version_ec_size ?ver = spec_E (unat v) \<and>
       qr_version_g1_blocks ?ver + qr_version_g2_blocks ?ver = spec_blocks (unat v) \<and>
       qr_version_max_data ?ver =
         qr_version_g1_blocks ?ver * qr_version_g1_blk_size ?ver +
         qr_version_g2_blocks ?ver * (qr_version_g1_blk_size ?ver + 1)"
    using valid_version_induct[OF _ _ version_table, of v] by (simp add: Let_def)
  from f(1) have d: "qr_version_max_data ?ver = spec_D (unat v)"
    using valid_version_induct[OF _ _ D_table, of v] by simp
  show g2: "em_g2_end em = spec_D (unat v)"
    using t d by (simp add: em_g2_end_def em_g1_end_def f)
  show "em_ec_end em = spec_total (unat v)"
    using t g2 by (simp add: em_ec_end_def em_blocks_def spec_total_def f)
  show "unat (em_g2_blk_size em) = unat (em_g1_blk_size em) + 1" by (simp add: f)
  show "spec_total (unat v) \<le> length (em_data em)"
    using f(9) t d by (simp add: spec_total_def)
  show "qr_version_max_data (em_version em) = spec_D (unat v)" using d by (simp add: f)
qed

text \<open>
  Claim C10.  For a message initialised for version \<open>v\<close> (1..40) and encoded, the interleaved
  iterator yields a byte at each of its first \<open>D(v) + E(v) * (g1 + g2)\<close> calls, every one read
  at an index below that number, which is within the buffer; from then on every call reports
  exhaustion and leaves the iterator as it is.  \<open>it\<close> is the iterator after \<open>k\<close> calls.
\<close>

theorem encoded_msg_iterator_exhausts:
  assumes "encoded_msg_init segs v tmp tmp_size = Some em0"
    and "em = encoded_msg_encode em0 segs"
    and "it = (encoded_msg_iterator_advance ^^ k) (encoded_msg_iterator_init em)"
  shows "1 \<le> v \<and> v \<le> 40 \<and>
         spec_total (unat v) \<le> length (em_data em) \<and>
         (k < spec_total (unat v) \<longrightarrow>
            encoded_msg_iterator_index em k < spec_total (unat v) \<and>
            encoded_msg_iterator_next it =
              Some (em_data em ! encoded_msg_iterator_index em k,
                    (encoded_msg_iterator_advance ^^ Suc k) (encoded_msg_iterator_init em))) \<and>
         (spec_total (unat v) \<le> k \<longrightarrow>
            encoded_msg_iterator_next it = None \<and> encoded_msg_iterator_advance it = it)"
proof -
  have sh: "same_shape em0 em" unfolding assms(2) by (rule encoded_msg_encode_shape)
  note e0 = encoded_msg_init_ends[OF assms(1)]
  have ec: "em_ec_end em = spec_total (unat v)" using same_shape_ends(1)[OF sh] e0(1) by simp
  have g2s: "unat (em_g2_blk_size em) = unat (em_g1_blk_size em) + 1"
    using same_shape_fields[OF sh] e0(3) by simp
  have len: "spec_total (unat v) \<le> length (em_data em)"
    using same_shape_fields(8)[OF sh] e0(4) by simp
  have it_em: "iter_em it = em" and it_off: "iter_offset it = min k (spec_total (unat v))"
    unfolding assms(3) using advance_funpow[of k em] ec by simp_all
  have a: "k < spec_total (unat v) \<Longrightarrow>
      encoded_msg_iterator_index em k < spec_total (unat v)"
    using iterator_index_lt[OF g2s, of k] ec by simp
  have b: "k < spec_total (unat v) \<Longrightarrow> encoded_msg_iterator_next it =
              Some (em_data em ! encoded_msg_iterator_index em k,
                    (encoded_msg_iterator_advance ^^ Suc k) (encoded_msg_iterator_init em))"
  proof -
    assume k: "k < spec_total (unat v)"
    then have n: "encoded_msg_iterator_next it =
        Some (em_data em ! encoded_msg_iterator_index em k, it\<lparr>iter_offset := k + 1\<rparr>)"
      using it_em it_off ec by (simp add: encoded_msg_iterator_next_def Let_def)
    then have "encoded_msg_iterator_advance it = it\<lparr>iter_offset := k + 1\<rparr>"
      by (simp add: encoded_msg_iterator_advance_def)
    then show ?thesis using n by (simp add: assms(3))
  qed
  have c: "spec_total (unat v) \<le> k \<Longrightarrow>
      encoded_msg_iterator_next it = None \<and> encoded_msg_iterator_advance it = it"
    using it_em it_off ec
    by (simp add: encoded_msg_iterator_next_def encoded_msg_iterator_advance_def Let_def)
  show ?thesis using encoded_msg_init_fields(1)[OF assms(1)] len a b c by blast
qed

lemma length_fold_update_const:
  "length (fold (\<lambda>j d. d[j := f j]) xs d) = length d"
  by (induction xs arbitrary: d) auto

lemma fold_update_upt_nth:
  "i < length d \<Longrightarrow>
   fold (\<lambda>j d. d[j := f j]) [a..<b] d ! i = (if a \<le> i \<and> i < b then f i else d ! i)"
proof (induction b)
  case 0
  then show ?case by simp
next
  case (Suc b)
  show ?case
  proof (cases "a \<le> b")
    case True
    have l: "i < length (fold (\<lambda>j d. d[j := f j]) [a..<b] d)"
      using Suc.prems by (simp add: length_fold_update_const)
    show ?thesis
    proof (cases "i = b")
      case True
      then show ?thesis using \<open>a \<le> b\<close> l by simp
    next
      case False
      then show ?thesis using \<open>a \<le> b\<close> Suc by (auto simp: nth_list_update)
    qed
  next
    case False
    then show ?thesis by auto
  qed
qed

lemma padding_index:
  "p \<le> i \<Longrightarrow> PADDING ! ((i AND 1) XOR (p AND 1)) = (if even (i - p) then 236 else 17)"
proof -
  assume pi: "p \<le> i"
  have a: "i AND 1 = i mod 2" "p AND 1 = p mod 2" by (simp_all add: and_one_eq)
  have "even (i - p) \<longleftrightarrow> (even i \<longleftrightarrow> even p)" using pi by simp
  then show ?thesis unfolding a
    by (cases "even i"; cases "even p") (simp_all add: PADDING_def mod_2_eq_odd)
qed

lemma add_padding_nth:
  assumes "i < length (em_data em)"
  shows "em_data (add_padding em p) ! i =
     (if p \<le> i \<and> i < qr_version_max_data (em_version em)
      then (if even (i - p) then 236 else 17) else em_data em ! i)"
proof -
  have "em_data (add_padding em p) ! i =
     (if p \<le> i \<and> i < qr_version_max_data (em_version em)
      then PADDING ! ((i AND 1) XOR (p AND 1)) else em_data em ! i)"
    unfolding add_padding_def
    using fold_update_upt_nth[OF assms, of "\<lambda>j. PADDING ! ((j AND 1) XOR (p AND 1))" p
        "qr_version_max_data (em_version em)"] by simp
  then show ?thesis using padding_index[of p i] by (cases "p \<le> i") simp_all
qed

lemma encoded_msg_push_offset: "snd (encoded_msg_push em offset number len_bits) = offset + len_bits"
  by (simp add: encoded_msg_push_def Let_def)

lemma encoded_msg_add_bits_aligned: "snd (encoded_msg_add_bits em segs) mod 8 = 0"
proof -
  obtain em1 off1 where a: "add_segments_loop em 0 segs = (em1, off1)"
    by (cases "add_segments_loop em 0 segs") auto
  obtain em2 off2 where b: "encoded_msg_push em1 off1 MODE_STOP 4 = (em2, off2)"
    by (cases "encoded_msg_push em1 off1 MODE_STOP 4") auto
  have "(off2 + (8 - off2 mod 8)) mod 8 = 0" by presburger
  then show ?thesis using a b
    by (simp add: encoded_msg_add_bits_def encoded_msg_push_offset)
qed

text \<open>
  Claim C8.  After \<open>encoded_msg_add_segments\<close> on a message initialised for version \<open>v\<close> (so
  the segments fit), with \<open>offset\<close> the bit position reached after the terminator and the
  zero bits up to the byte boundary: \<open>offset\<close> is a whole number of bytes, the bytes from
  \<open>offset div 8\<close> up to \<open>D(v) - 1\<close> are \<open>0xEC, 0x11, 0xEC, ...\<close> starting with \<open>0xEC\<close>, and
  the bytes before them are the ones the bit stream wrote; all \<open>D(v)\<close> of them lie in the
  buffer.
\<close>

theorem encoded_msg_add_segments_padding:
  assumes "encoded_msg_init segs v tmp tmp_size = Some em0"
    and "encoded_msg_add_bits em0 segs = (em1, offset)"
    and "em = encoded_msg_add_segments em0 segs"
  shows "offset mod 8 = 0 \<and> spec_D (unat v) \<le> length (em_data em) \<and>
         (\<forall>i. offset div 8 \<le> i \<and> i < spec_D (unat v) \<longrightarrow>
              em_data em ! i = (if even (i - offset div 8) then 0xEC else 0x11)) \<and>
         (\<forall>i. i < offset div 8 \<and> i < spec_D (unat v) \<longrightarrow> em_data em ! i = em_data em1 ! i)"
proof -
  have sh1: "same_shape em0 em1" using encoded_msg_add_bits_shape[of em0 segs] assms(2) by simp
  note e0 = encoded_msg_init_ends[OF assms(1)]
  have ver: "qr_version_max_data (em_version em1) = spec_D (unat v)"
    using same_shape_fields(7)[OF sh1] e0(5) by simp
  have len1: "spec_D (unat v) \<le> length (em_data em1)"
    using same_shape_fields(8)[OF sh1] e0(4) by (simp add: spec_total_def)
  have em: "em = add_padding em1 (offset div 8)"
    using assms(2,3) by (simp add: encoded_msg_add_segments_def)
  have len: "spec_D (unat v) \<le> length (em_data em)"
    using same_shape_fields(8)[OF add_padding_shape[of em1 "offset div 8"]] len1 em by simp
  have al: "offset mod 8 = 0" using encoded_msg_add_bits_aligned[of em0 segs] assms(2) by simp
  have pad: "\<And>i. i < spec_D (unat v) \<Longrightarrow> em_data em ! i =
      (if offset div 8 \<le> i then (if even (i - offset div 8) then 236 else 17)
       else em_data em1 ! i)"
    using add_padding_nth[of _ em1 "offset div 8"] len1 ver by (simp add: em)
  show ?thesis using al len pad by auto
qed

lemma encoded_msg_push_pair:
  "encoded_msg_push em offset number len_bits =
     (fst (encoded_msg_push em offset number len_bits), offset + len_bits)"
  by (simp add: encoded_msg_push_def Let_def)

lemma add_segment_data_binary_offset:
  "seg_type (si_segment iter) = SEGMENT_BINARY \<Longrightarrow>
   snd (add_segment_data em offset iter) =
     offset + 8 * (seg_length (si_segment iter) - si_offset iter)"
proof (induction em offset iter rule: add_segment_data.induct)
  case (1 em offset iter)
  show ?case
  proof (cases "si_offset iter < seg_length (si_segment iter)")
    case False
    then have "qr_segment_iterator_next iter = None"
      using "1.prems" by (simp add: qr_segment_iterator_next_def)
    then show ?thesis using False by (simp add: add_segment_data.simps[of em offset iter])
  next
    case True
    let ?b = "ucast (seg_data (si_segment iter) ! si_offset iter) :: u16"
    let ?it = "iter\<lparr>si_offset := si_offset iter + 1\<rparr>"
    let ?em = "fst (encoded_msg_push em offset ?b 8)"
    have n: "qr_segment_iterator_next iter = Some (?b, 8, ?it)"
      using "1.prems" True by (simp add: qr_segment_iterator_next_def)
    have p: "encoded_msg_push em offset ?b 8 = (?em, offset + 8)"
      by (rule encoded_msg_push_pair)
    have "snd (add_segment_data ?em (offset + 8) ?it) =
        offset + 8 + 8 * (seg_length (si_segment ?it) - si_offset ?it)"
      by (rule "1.IH"[OF n refl refl p[symmetric]]) (simp add: "1.prems")
    also have "\<dots> = offset + 8 * (seg_length (si_segment iter) - si_offset iter)"
      using True by simp
    finally have r: "snd (add_segment_data ?em (offset + 8) ?it) =
        offset + 8 * (seg_length (si_segment iter) - si_offset iter)" .
    have "add_segment_data em offset iter = add_segment_data ?em (offset + 8) ?it"
      by (subst add_segment_data.simps) (simp add: n split_beta encoded_msg_push_offset)
    then show ?thesis using r by simp
  qed
qed

lemma add_segments_loop_binary_offset:
  "\<forall>seg \<in> set segs. seg_type seg = SEGMENT_BINARY \<Longrightarrow>
   snd (add_segments_loop em offset segs) =
     offset + (\<Sum>seg\<leftarrow>segs. qr_segment_total_size_bits seg (em_version em))"
proof (induction segs arbitrary: em offset)
  case Nil
  show ?case by simp
next
  case (Cons seg segs)
  have b: "seg_type seg = SEGMENT_BINARY" using Cons.prems by simp
  let ?em1 = "fst (encoded_msg_push em offset MODE_BINARY 4)"
  let ?lf = "qr_segment_get_length_field seg (em_version ?em1)"
  let ?em2 = "fst (encoded_msg_push ?em1 (offset + 4) (fst ?lf) (snd ?lf))"
  let ?r = "add_segment_data ?em2 (offset + 4 + snd ?lf) (qr_segment_iterator_init seg)"
  have v1: "em_version ?em1 = em_version em"
    by (rule same_shape_fields(7)[OF encoded_msg_push_shape])
  have v2: "em_version ?em2 = em_version em"
    using same_shape_fields(7)[OF encoded_msg_push_shape, of ?em1] v1 by simp
  have v3: "em_version (fst ?r) = em_version em"
    using same_shape_fields(7)[OF add_segment_data_shape, of ?em2] v2 by simp
  have lf: "snd ?lf = qr_segment_length_bits_count seg (em_version em)"
    by (simp add: qr_segment_get_length_field_def Let_def v1)
  have r: "snd ?r = offset + 4 + snd ?lf + 8 * seg_length seg"
    using add_segment_data_binary_offset[of "qr_segment_iterator_init seg" ?em2
        "offset + 4 + snd ?lf"] b
    by (simp add: qr_segment_iterator_init_def)
  have step: "add_segments_loop em offset (seg # segs) = add_segments_loop (fst ?r) (snd ?r) segs"
    using b
    by (simp add: qr_segment_get_header_def split_beta encoded_msg_push_offset)
  have "snd (add_segments_loop (fst ?r) (snd ?r) segs) =
      snd ?r + (\<Sum>seg\<leftarrow>segs. qr_segment_total_size_bits seg (em_version (fst ?r)))"
    using Cons.IH[of "fst ?r" "snd ?r"] Cons.prems by simp
  then show ?case unfolding step using r lf v3 b
    by (simp add: qr_segment_total_size_bits_def)
qed

lemma encoded_msg_add_bits_binary_offset:
  assumes "\<forall>seg \<in> set segs. seg_type seg = SEGMENT_BINARY"
  shows "snd (encoded_msg_add_bits em segs) =
     8 * (((\<Sum>seg\<leftarrow>segs. qr_segment_total_size_bits seg (em_version em)) + 4 + 7) div 8)"
proof -
  let ?t = "\<Sum>seg\<leftarrow>segs. qr_segment_total_size_bits seg (em_version em)"
  let ?l = "add_segments_loop em 0 segs"
  have a: "?l = (fst ?l, ?t)"
    using add_segments_loop_binary_offset[OF assms, of em 0] by (cases ?l) simp
  have "snd (encoded_msg_add_bits em segs) =
      (if (?t + 4) mod 8 \<noteq> 0 then ?t + 4 + (8 - (?t + 4) mod 8) else ?t + 4)"
    unfolding encoded_msg_add_bits_def
    using arg_cong[OF a, of snd] by (simp add: split_beta encoded_msg_push_offset)
  also have "\<dots> = 8 * ((?t + 4 + 7) div 8)" by presburger
  finally show ?thesis .
qed

lemma fold_update_above_nth:
  "i < c \<Longrightarrow> fold (\<lambda>k d. d[c + k := f k]) xs d ! i = d ! i"
  by (induction xs arbitrary: d) auto

lemma encoded_msg_error_code_for_block_below:
  "i < ec_offset \<Longrightarrow>
   em_data (encoded_msg_error_code_for_block em offset sz ec_offset) ! i = em_data em ! i"
  by (simp add: encoded_msg_error_code_for_block_def Let_def fold_update_above_nth)

lemma error_code_rounds_below:
  "i < ec_offset \<Longrightarrow>
   em_data (fst (fold (\<lambda>j. error_code_round bs) xs (em, offset, ec_offset))) ! i = em_data em ! i
   \<and> ec_offset \<le> snd (snd (fold (\<lambda>j. error_code_round bs) xs (em, offset, ec_offset)))"
proof (induction xs arbitrary: em offset ec_offset)
  case Nil
  show ?case by simp
next
  case (Cons x xs)
  let ?em1 = "encoded_msg_error_code_for_block em offset bs ec_offset"
  have i': "i < ec_offset + unat (em_ec_size em)" using Cons.prems by simp
  from Cons.IH[OF i', of ?em1 "offset + bs"]
    encoded_msg_error_code_for_block_below[OF Cons.prems, of em offset bs]
  show ?case by (simp add: error_code_round_pair)
qed

lemma encoded_msg_compute_error_code_below:
  assumes "i < em_g2_end em"
  shows "em_data (encoded_msg_compute_error_code em) ! i = em_data em ! i"
proof -
  let ?e0 = "unat (em_g1_blocks em) * unat (em_g1_blk_size em) +
             unat (em_g2_blocks em) * unat (em_g2_blk_size em)"
  let ?st1 = "fold (\<lambda>i. error_code_round (unat (em_g1_blk_size em)))
                  [0..<unat (em_g1_blocks em)] (em, 0, ?e0)"
  have i0: "i < ?e0" using assms by (simp add: em_g2_end_def em_g1_end_def)
  obtain em1 o1 e1 where s: "?st1 = (em1, o1, e1)" by (cases ?st1) auto
  have a: "em_data em1 ! i = em_data em ! i" "?e0 \<le> e1"
    using error_code_rounds_below[OF i0, of "unat (em_g1_blk_size em)"
        "[0..<unat (em_g1_blocks em)]" em 0] s by simp_all
  have i1: "i < e1" using i0 a(2) by simp
  have b: "em_data (fst (fold (\<lambda>i. error_code_round (unat (em_g2_blk_size em)))
                  [0..<unat (em_g2_blocks em)] (em1, o1, e1))) ! i = em_data em1 ! i"
    using error_code_rounds_below[OF i1, of "unat (em_g2_blk_size em)"
        "[0..<unat (em_g2_blocks em)]" em1 o1] by simp
  show ?thesis using a(1) b s by (simp add: encoded_msg_compute_error_code_def Let_def)
qed

lemma encoded_msg_encode_data_region:
  assumes "encoded_msg_init segs v tmp tmp_size = Some em0" and "i < spec_D (unat v)"
  shows "em_data (encoded_msg_encode em0 segs) ! i =
         em_data (encoded_msg_add_segments em0 segs) ! i"
proof -
  have sh: "same_shape em0 (encoded_msg_add_segments em0 segs)"
    by (rule encoded_msg_add_segments_shape)
  have "em_g2_end (encoded_msg_add_segments em0 segs) = spec_D (unat v)"
    using same_shape_ends(2)[OF sh] encoded_msg_init_ends(2)[OF assms(1)] by simp
  then show ?thesis unfolding encoded_msg_encode_def
    using encoded_msg_compute_error_code_below[of i "encoded_msg_add_segments em0 segs"] assms(2)
    by simp
qed

lemma hello_total_bits:
  "(\<Sum>seg\<leftarrow>hello_segments. qr_segment_total_size_bits seg \<lparr>version = v\<rparr>) =
     (if v \<le> 9 then 60 else 68)"
  by (simp add: hello_segments_def qr_segment_total_size_bits_def
      qr_segment_length_bits_count_def)

lemma hello_binary: "\<forall>seg \<in> set hello_segments. seg_type seg = SEGMENT_BINARY"
  by (simp add: hello_segments_def)

lemma hello_init_1:
  "\<exists>em0. encoded_msg_init hello_segments 1 (replicate 26 0) 26 = Some em0"
  by (simp add: encoded_msg_init_def Let_def hello_total_bits qr_version_max_data_def
      qr_version_ec_size_def qr_version_g1_blocks_def qr_version_g2_blocks_def
      qr_version_g1_blk_size_def version_index_def size_t_of_int_def VPARAM_def vparam_def)
    (simp add: hello_segments_def)

lemma version_1_params: "spec_total (Suc 0) = 26" "spec_D (Suc 0) = 19"
  by (simp_all add: spec_total_def spec_D_def spec_E_def spec_blocks_def VPARAM_def vparam_def)

lemma version_10_params:
  "qr_version_g1_blocks \<lparr>version = 10\<rparr> = 2" "qr_version_g2_blocks \<lparr>version = 10\<rparr> = 2"
  "qr_version_g1_blk_size \<lparr>version = 10\<rparr> = 68" "qr_version_ec_size \<lparr>version = 10\<rparr> = 18"
  "qr_version_max_data \<lparr>version = 10\<rparr> = 274" "spec_D 10 = 274" "spec_total 10 = 346"
  by (simp_all add: qr_version_g1_blocks_def qr_version_g2_blocks_def qr_version_g1_blk_size_def
      qr_version_ec_size_def qr_version_max_data_def spec_D_def spec_total_def spec_E_def
      spec_blocks_def version_index_def size_t_of_int_def VPARAM_def vparam_def)

lemma hello_init_10:
  "\<exists>em0. encoded_msg_init hello_segments 10 (replicate 3706 0) 3706 = Some em0"
  by (simp add: encoded_msg_init_def Let_def hello_total_bits version_10_params)
    (simp add: hello_segments_def)

text \<open>
  Claim C1 says that in the second phase of the interleaved order the \<open>i\<close>-th group-2 block
  contributes its own last byte.  The code computes the index
  \<open>g1_end + blk2 / g2_blk_size * g2_blk_size + g2_blk_size - 1\<close>, and \<open>blk2 / g2_blk_size\<close> is 0 for
  every \<open>blk2 < g2_blocks\<close>, so every byte of the phase is the last byte of the first group-2
  block.  Version 10 has two blocks of 68 bytes and two of 69.  For \<open>"HELLO\n"\<close> the byte
  emitted at position \<open>272 + 1\<close> is read at index 204 and is \<open>0x11\<close>, while the last byte of
  the second group-2 block, at index 273, is \<open>0xEC\<close>.
\<close>

theorem interleave_second_group2_byte:
  "case encoded_msg_init hello_segments 10 (replicate 3706 0) 3706 of
     None \<Rightarrow> False
   | Some em0 \<Rightarrow>
       (let em = encoded_msg_encode em0 hello_segments in
          unat (em_g1_blk_size em) * em_blocks em = 272 \<and>
          unat (em_g2_blocks em) = 2 \<and>
          em_g1_end em + 2 * unat (em_g2_blk_size em) - 1 = 273 \<and>
          em_data em ! 273 = 0xEC \<and>
          encoded_msg_iterator_index em (272 + 1) = 204 \<and>
          map_option fst (encoded_msg_iterator_next
             ((encoded_msg_iterator_advance ^^ (272 + 1)) (encoded_msg_iterator_init em)))
            = Some 0x11)"
proof -
  obtain em0 where i: "encoded_msg_init hello_segments 10 (replicate 3706 0) 3706 = Some em0"
    using hello_init_10 by blast
  define em where "em = encoded_msg_encode em0 hello_segments"
  note f = encoded_msg_init_fields[OF i]
  have sh: "same_shape em0 em" unfolding em_def by (rule encoded_msg_encode_shape)
  note g = same_shape_fields[OF sh]
  have fl: "unat (em_g1_blocks em) = 2" "unat (em_g2_blocks em) = 2"
    "unat (em_g1_blk_size em) = 68" "unat (em_g2_blk_size em) = 69" "unat (em_ec_size em) = 18"
    using f g by (simp_all add: version_10_params)
  have ends: "em_blocks em = 4" "em_g1_end em = 136" "em_g2_end em = 274" "em_ec_end em = 346"
    by (simp_all add: em_blocks_def em_g1_end_def em_g2_end_def em_ec_end_def fl)
  have idx: "encoded_msg_iterator_index em 273 = 204"
    by (simp add: encoded_msg_iterator_index_def Let_def ends fl)
  have off: "snd (encoded_msg_add_bits em0 hello_segments) = 72"
    using encoded_msg_add_bits_binary_offset[OF hello_binary, of em0]
    by (simp add: f(2) hello_total_bits)
  obtain em1 where b: "encoded_msg_add_bits em0 hello_segments = (em1, 72)"
    using off by (cases "encoded_msg_add_bits em0 hello_segments") auto
  have sh1: "same_shape em0 em1" using encoded_msg_add_bits_shape[of em0 hello_segments] b by simp
  have len1: "3706 \<le> length (em_data em1)"
    using same_shape_fields(8)[OF sh1] f(11) by simp
  have ver1: "qr_version_max_data (em_version em1) = 274"
    using same_shape_fields(7)[OF sh1] f(2) by (simp add: version_10_params)
  have pad: "\<And>j. j < 274 \<Longrightarrow> 9 \<le> j \<Longrightarrow>
      em_data (encoded_msg_add_segments em0 hello_segments) ! j =
        (if even (j - 9) then 236 else 17)"
    using add_padding_nth[of _ em1 9] len1 ver1 b
    by (simp add: encoded_msg_add_segments_def)
  have reg: "\<And>j. j < 274 \<Longrightarrow> em_data em ! j =
      em_data (encoded_msg_add_segments em0 hello_segments) ! j"
    unfolding em_def using encoded_msg_encode_data_region[OF i] by (simp add: version_10_params)
  have d204: "em_data em ! 204 = 17" using reg[of 204] pad[of 204] by simp
  have d273: "em_data em ! 273 = 236" using reg[of 273] pad[of 273] by simp
  have it: "iter_em ((encoded_msg_iterator_advance ^^ 273) (encoded_msg_iterator_init em)) = em"
    "iter_offset ((encoded_msg_iterator_advance ^^ 273) (encoded_msg_iterator_init em)) = 273"
    using advance_funpow[of 273 em] by (simp_all add: ends)
  have nx: "map_option fst (encoded_msg_iterator_next
             ((encoded_msg_iterator_advance ^^ 273) (encoded_msg_iterator_init em))) = Some 17"
    by (simp add: encoded_msg_iterator_next_def Let_def it ends idx d204)
  show ?thesis
    using i fl ends idx d273 nx by (simp add: em_def[symmetric] Let_def)
qed

theorem encoded_msg_iterator_exhausts_witness:
  "\<exists>em0. encoded_msg_init hello_segments 1 (replicate 26 0) 26 = Some em0 \<and>
    26 \<le> length (em_data (encoded_msg_encode em0 hello_segments)) \<and>
    encoded_msg_iterator_index (encoded_msg_encode em0 hello_segments) 25 < 26 \<and>
    encoded_msg_iterator_next ((encoded_msg_iterator_advance ^^ 25)
      (encoded_msg_iterator_init (encoded_msg_encode em0 hello_segments))) \<noteq> None \<and>
    encoded_msg_iterator_next ((encoded_msg_iterator_advance ^^ 26)
      (encoded_msg_iterator_init (encoded_msg_encode em0 hello_segments))) = None"
proof -
  obtain em0 where i: "encoded_msg_init hello_segments 1 (replicate 26 0) 26 = Some em0"
    using hello_init_1 by blast
  from encoded_msg_iterator_exhausts[OF i refl refl, of 25]
       encoded_msg_iterator_exhausts[OF i refl refl, of 26] i
  show ?thesis by (simp add: version_1_params)
qed

theorem encoded_msg_add_segments_padding_witness:
  "\<exists>em0 em1. encoded_msg_init hello_segments 1 (replicate 26 0) 26 = Some em0 \<and>
    encoded_msg_add_bits em0 hello_segments = (em1, 64) \<and>
    19 \<le> length (em_data (encoded_msg_add_segments em0 hello_segments)) \<and>
    em_data (encoded_msg_add_segments em0 hello_segments) ! 8 = 0xEC \<and>
    em_data (encoded_msg_add_segments em0 hello_segments) ! 9 = 0x11 \<and>
    em_data (encoded_msg_add_segments em0 hello_segments) ! 18 = 0xEC \<and>
    em_data (encoded_msg_add_segments em0 hello_segments) ! 7 = em_data em1 ! 7"
proof -
  obtain em0 where i: "encoded_msg_init hello_segments 1 (replicate 26 0) 26 = Some em0"
    using hello_init_1 by blast
  have "snd (encoded_msg_add_bits em0 hello_segments) = 64"
    using encoded_msg_add_bits_binary_offset[OF hello_binary, of em0]
    by (simp add: encoded_msg_init_fields(2)[OF i] hello_total_bits)
  then obtain em1 where b: "encoded_msg_add_bits em0 hello_segments = (em1, 64)"
    by (cases "encoded_msg_add_bits em0 hello_segments") auto
  from encoded_msg_add_segments_padding[OF i b refl] i b
  show ?thesis by (simp add: version_1_params)
qed

section \<open>The 13-bit fetch of numeric mode\<close>

text \<open>When the bits to fetch reach beyond the second byte, the third byte is within the
  data: the first alternative of the three-byte case is the only one taken.\<close>

lemma get_next_13b_three_bytes:
  assumes "(offset::nat) < data_len * 8" "16 < offset mod 8 + min 13 (data_len * 8 - offset)"
  shows "offset div 8 + 2 < data_len"
proof -
  have o: "offset = 8 * (offset div 8) + offset mod 8" by simp
  have "min 13 (data_len * 8 - offset) \<le> data_len * 8 - offset" by simp
  then have "16 < offset mod 8 + (data_len * 8 - offset)" using assms(2) by linarith
  then have "16 + offset < offset mod 8 + data_len * 8" using assms(1) by linarith
  then have "16 + 8 * (offset div 8) < data_len * 8" using o by linarith
  then show ?thesis by linarith
qed

text \<open>
  Claim C2 says that the value \<open>get_next_13b\<close> returns fits in the number of bits it reports,
  so that every group is at most 8191 and has four decimal digits.  The code keeps the bits of
  the first byte that lie before the bit offset: \<open>(first_byte << bit_off) >> bit_off\<close> is
  computed on an \<open>int\<close> and clears nothing.  For the bytes \<open>04 FF 00 00\<close> the fetch at bit
  offset 13 returns 64512 with a reported size of 13 bits, and the numeric iterator then
  emits 1545 as a 10-bit group.  For the bytes \<open>00 FF\<close> the fetch at offset 13 returns 255
  for 3 bits.
\<close>

theorem get_next_13b_exceeds_its_size:
  "get_next_13b [0x04, 0xFF, 0x00, 0x00] 4 13 = (64512, 13) \<and>
   \<not> unat (fst (get_next_13b [0x04, 0xFF, 0x00, 0x00] 4 13))
       < 2 ^ snd (get_next_13b [0x04, 0xFF, 0x00, 0x00] 4 13) \<and>
   \<not> unat (fst (get_next_13b [0x04, 0xFF, 0x00, 0x00] 4 13)) \<le> 9999 \<and>
   get_next_13b [0x00, 0xFF] 2 13 = (255, 3) \<and>
   qr_segment_iterator_next (qr_segment_iterator_init numeric_example) =
     Some (15, 10, \<lparr>si_segment = numeric_example, si_offset = 13, si_carry = 9,
                     si_carry_len = 1\<rparr>) \<and>
   qr_segment_iterator_next \<lparr>si_segment = numeric_example, si_offset = 13, si_carry = 9,
                              si_carry_len = 1\<rparr> =
     Some (1545, 10, \<lparr>si_segment = numeric_example, si_offset = 26, si_carry = 12,
                       si_carry_len = 2\<rparr>)"
proof -
  have a: "get_next_13b [0x04, 0xFF, 0x00, 0x00] 4 13 = (64512, 13)"
    by (simp add: get_next_13b_def)
  have b: "get_next_13b [0x04, 0xFF, 0x00, 0x00] 4 0 = (159, 13)"
    by (simp add: get_next_13b_def)
  have c: "get_next_13b [0x00, 0xFF] 2 13 = (255, 3)"
    by (simp add: get_next_13b_def)
  have d: "qr_segment_iterator_next (qr_segment_iterator_init numeric_example) =
     Some (15, 10, \<lparr>si_segment = numeric_example, si_offset = 13, si_carry = 9,
                     si_carry_len = 1\<rparr>)"
    by (simp add: qr_segment_iterator_next_def qr_segment_iterator_init_def numeric_example_def b
        POW10_def NUM_CHARS_BITS_def)
  have e: "qr_segment_iterator_next \<lparr>si_segment = numeric_example, si_offset = 13, si_carry = 9,
                              si_carry_len = 1\<rparr> =
     Some (1545, 10, \<lparr>si_segment = numeric_example, si_offset = 26, si_carry = 12,
                       si_carry_len = 2\<rparr>)"
    by (simp add: qr_segment_iterator_next_def numeric_example_def a POW10_def NUM_CHARS_BITS_def)
  show ?thesis using c d e by (simp add: a)
qed

section \<open>The payload fitter\<close>

lemma fit_search_done:
  "\<not> low \<le> high \<Longrightarrow>
   fit_search zstd src level tc dpc cctx low high best bp = (cctx, best, bp)"
  by (simp add: fit_search.simps[of zstd src level tc dpc cctx low high])

lemma fit_search_step:
  assumes "low \<le> high" "1 \<le> low"
    and "zstd cctx dpc (take (low + (high - low) div 2) src) level = (r, cctx')"
  shows "fit_search zstd src level tc dpc cctx low high best bp =
     (case r of
        ZSTD_error \<Rightarrow>
          fit_search zstd src level tc dpc cctx' low (low + (high - low) div 2 - 1) best bp
      | ZSTD_size k \<Rightarrow>
          if QR_COMPRESSION_HEADER_SIZE + k \<le> tc then
            fit_search zstd src level tc dpc cctx' (low + (high - low) div 2 + 1) high
              (low + (high - low) div 2) k
          else
            fit_search zstd src level tc dpc cctx' low (low + (high - low) div 2 - 1) best bp)"
proof -
  have "low + (high - low) div 2 \<noteq> 0" using assms(2) by simp
  then show ?thesis
    by (subst fit_search.simps) (simp only: assms(1,3) Let_def if_True if_False prod.case)
qed


lemma fit_search_max:
  "(\<And>c m. fst (zstd c dpc (take m src) level) = R m) \<Longrightarrow>
   (\<And>m m'. 1 \<le> m \<Longrightarrow> m \<le> m' \<Longrightarrow> m' \<le> n \<Longrightarrow> fits R tc m' \<Longrightarrow> fits R tc m) \<Longrightarrow>
   fit_search zstd src level tc dpc c low high best bp = (c', best', bp') \<Longrightarrow>
   1 \<le> low \<Longrightarrow> low \<le> high + 1 \<Longrightarrow> high \<le> n \<Longrightarrow>
   (\<And>m. high < m \<Longrightarrow> m \<le> n \<Longrightarrow> \<not> fits R tc m) \<Longrightarrow>
   (best = 0 \<and> low = 1) \<or> (best + 1 = low \<and> fits R tc best \<and> R best = ZSTD_size bp) \<Longrightarrow>
   (\<forall>m. best' < m \<and> m \<le> n \<longrightarrow> \<not> fits R tc m) \<and>
   (best' = 0 \<or> (1 \<le> best' \<and> best' \<le> n \<and> fits R tc best' \<and> R best' = ZSTD_size bp'))"
proof (induction zstd src level tc dpc c low high best bp rule: fit_search.induct)
  case (1 zstd src level tc dpc cctx low high best bp)
  let ?mid = "low + (high - low) div 2"
  note det = "1.prems"(1) and mono = "1.prems"(2) and res = "1.prems"(3)
    and low1 = "1.prems"(4) and lh = "1.prems"(5) and hn = "1.prems"(6)
    and above = "1.prems"(7) and bst = "1.prems"(8)
  show ?case
  proof (cases "low \<le> high")
    case False
    then have r: "best' = best" "bp' = bp" using res by (simp_all add: fit_search_done)
    from False lh have hl: "low = high + 1" by simp
    show ?thesis
    proof (cases "best = 0")
      case True
      with bst hl have "high = 0" by auto
      then show ?thesis using above r True by auto
    next
      case nz: False
      with bst hl have b: "best = high" "fits R tc best" "R best = ZSTD_size bp" by auto
      then show ?thesis using above r nz hn by auto
    qed
  next
    case True
    have mid: "low \<le> ?mid" "?mid \<le> high" "?mid \<noteq> 0" "1 \<le> ?mid" using True low1 by auto
    obtain r cctx' where z: "zstd cctx dpc (take ?mid src) level = (r, cctx')"
      by (cases "zstd cctx dpc (take ?mid src) level") auto
    have Rmid: "R ?mid = r" using det[of cctx ?mid] z by simp
    note step = fit_search_step[where zstd=zstd and cctx=cctx and dpc=dpc and src=src
        and level=level, OF True low1 z]
    have nofit_above: "\<not> fits R tc ?mid \<Longrightarrow> (\<And>m. ?mid - 1 < m \<Longrightarrow> m \<le> n \<Longrightarrow> \<not> fits R tc m)"
    proof -
      fix m assume nf: "\<not> fits R tc ?mid" and m: "?mid - 1 < m" "m \<le> n"
      show "\<not> fits R tc m"
      proof
        assume "fits R tc m"
        from mono[OF mid(4) _ m(2) this] m(1) have "fits R tc ?mid" by simp
        with nf show False by simp
      qed
    qed
    show ?thesis
    proof (cases r)
      case ZSTD_error
      have nf: "\<not> fits R tc ?mid" using Rmid ZSTD_error by (simp add: fits_def)
      have e: "fit_search zstd src level tc dpc cctx' low (?mid - 1) best bp = (c', best', bp')"
        using res ZSTD_error by (simp add: step)
      have lh': "low \<le> ?mid - 1 + 1" using mid by simp
      have hn': "?mid - 1 \<le> n" using mid hn by simp
      show ?thesis
        by (rule "1.IH"(1)[OF True refl mid(3) z[symmetric] ZSTD_error det mono e low1 lh' hn'
              nofit_above[OF nf] bst])
    next
      case (ZSTD_size k)
      show ?thesis
      proof (cases "QR_COMPRESSION_HEADER_SIZE + k \<le> tc")
        case fit: True
        have f: "fits R tc ?mid" using Rmid ZSTD_size fit by (simp add: fits_def)
        have e: "fit_search zstd src level tc dpc cctx' (?mid + 1) high ?mid k = (c', best', bp')"
          using res ZSTD_size fit by (simp add: step)
        have b': "(?mid = 0 \<and> ?mid + 1 = 1) \<or>
                  (?mid + 1 = ?mid + 1 \<and> fits R tc ?mid \<and> R ?mid = ZSTD_size k)"
          using f Rmid ZSTD_size by simp
        have l1: "1 \<le> ?mid + 1" by simp
        have lh': "?mid + 1 \<le> high + 1" using mid by simp
        show ?thesis
          by (rule "1.IH"(2)[OF True refl mid(3) z[symmetric] ZSTD_size fit det mono e l1 lh' hn
                above b'])
      next
        case nofit: False
        have nf: "\<not> fits R tc ?mid" using Rmid ZSTD_size nofit by (simp add: fits_def)
        have e: "fit_search zstd src level tc dpc cctx' low (?mid - 1) best bp = (c', best', bp')"
          using res ZSTD_size nofit by (simp add: step)
        have lh': "low \<le> ?mid - 1 + 1" using mid by simp
        have hn': "?mid - 1 \<le> n" using mid hn by simp
        show ?thesis
          by (rule "1.IH"(3)[OF True refl mid(3) z[symmetric] ZSTD_size nofit det mono e low1 lh'
                hn' nofit_above[OF nf] bst])
      qed
    qed
  qed
qed

text \<open>Below the largest \<open>size_t\<close> the loop with \<open>size_t\<close> arithmetic ends, with the result
  of the loop on natural numbers.\<close>

lemma fit_search_size_t_eq:
  "high < 2 ^ 64 - 1 \<Longrightarrow>
   fit_search_size_t zstd src level tc dpc cctx low high best bp =
     Some (fit_search zstd src level tc dpc cctx low high best bp)"
proof (induction zstd src level tc dpc cctx low high best bp rule: fit_search.induct)
  case (1 zstd src level tc dpc cctx low high best bp)
  let ?mid = "low + (high - low) div 2"
  show ?case
  proof (cases "low \<le> high")
    case False
    have "fit_search_size_t zstd src level tc dpc cctx low high best bp = Some (cctx, best, bp)"
      by (subst fit_search_size_t.simps) (simp only: False if_False)
    then show ?thesis using fit_search_done[OF False, of zstd src level tc dpc cctx best bp] by simp
  next
    case True
    have m: "?mid \<le> high" using True by simp
    have m1: "?mid mod 2 ^ 64 = ?mid" using m "1.prems" by simp
    have m2: "(?mid + 1) mod 2 ^ 64 = ?mid + 1" using m "1.prems" by simp
    have h': "?mid - 1 < 2 ^ 64 - 1" using m "1.prems" by simp
    have l: "fit_search_size_t zstd src level tc dpc cctx low high best bp =
        (if ?mid = 0 then Some (cctx, best, bp)
         else
           (case zstd cctx dpc (take ?mid src) level of
              (ZSTD_error, cctx') \<Rightarrow>
                fit_search_size_t zstd src level tc dpc cctx' low (?mid - 1) best bp
            | (ZSTD_size k, cctx') \<Rightarrow>
                if QR_COMPRESSION_HEADER_SIZE + k \<le> tc then
                  fit_search_size_t zstd src level tc dpc cctx' (?mid + 1) high ?mid k
                else
                  fit_search_size_t zstd src level tc dpc cctx' low (?mid - 1) best bp))"
      by (subst fit_search_size_t.simps) (simp only: True if_True Let_def m1 m2)
    have r: "fit_search zstd src level tc dpc cctx low high best bp =
        (if ?mid = 0 then (cctx, best, bp)
         else
           (case zstd cctx dpc (take ?mid src) level of
              (ZSTD_error, cctx') \<Rightarrow>
                fit_search zstd src level tc dpc cctx' low (?mid - 1) best bp
            | (ZSTD_size k, cctx') \<Rightarrow>
                if QR_COMPRESSION_HEADER_SIZE + k \<le> tc then
                  fit_search zstd src level tc dpc cctx' (?mid + 1) high ?mid k
                else
                  fit_search zstd src level tc dpc cctx' low (?mid - 1) best bp))"
      by (subst fit_search.simps) (simp only: True if_True Let_def)
    show ?thesis
    proof (cases "?mid = 0")
      case z: True
      show ?thesis unfolding l r by (simp add: z)
    next
      case nz: False
      obtain res cctx' where z: "zstd cctx dpc (take ?mid src) level = (res, cctx')"
        by (cases "zstd cctx dpc (take ?mid src) level") auto
      show ?thesis
      proof (cases res)
        case ZSTD_error
        note ih = "1.IH"(1)[OF True refl nz z[symmetric] ZSTD_error h']
        show ?thesis unfolding l r
          by (simp only: nz if_False z ZSTD_error prod.case zstd_result.case ih)
      next
        case (ZSTD_size k)
        show ?thesis
        proof (cases "QR_COMPRESSION_HEADER_SIZE + k \<le> tc")
          case fit: True
          note ih = "1.IH"(2)[OF True refl nz z[symmetric] ZSTD_size fit "1.prems"]
          show ?thesis unfolding l r
            by (simp only: nz if_False z ZSTD_size prod.case zstd_result.case fit if_True ih)
        next
          case nofit: False
          note ih = "1.IH"(3)[OF True refl nz z[symmetric] ZSTD_size nofit h']
          show ?thesis unfolding l r
            by (simp only: nz if_False z ZSTD_size prod.case zstd_result.case nofit ih)
        qed
      qed
    qed
  qed
qed

text \<open>At \<open>high = 2^64 - 1\<close>, with a compressor whose every result fits, \<open>low = mid + 1\<close> wraps
  to 0 each time \<open>mid\<close> reaches \<open>2^64 - 1\<close>, and the loop does not end.\<close>

lemma fit_search_size_t_wraps_step:
  assumes s: "fit_search_size_t zstd src level tc dpc cctx low high best bp = Some y"
  shows "\<not> ((\<forall>c cap s lv. \<exists>k c'. zstd c cap s lv = (ZSTD_size k, c') \<and>
                  QR_COMPRESSION_HEADER_SIZE + k \<le> tc) \<and>
            high = 2 ^ 64 - 1 \<and> low \<le> high)"
proof (rule fit_search_size_t.raw_induct[where P =
      "\<lambda>zstd src level tc dpc cctx low high best bp y.
         \<not> ((\<forall>c cap s lv. \<exists>k c'. zstd c cap s lv = (ZSTD_size k, c') \<and>
                  QR_COMPRESSION_HEADER_SIZE + k \<le> tc) \<and>
            high = 2 ^ 64 - 1 \<and> low \<le> high)", OF _ s], goal_cases)
  case (1 f zstd src level tc dpc cctx low high best bp r)
  show ?case
  proof
    assume a: "(\<forall>c cap s lv. \<exists>k c'. zstd c cap s lv = (ZSTD_size k, c') \<and>
                QR_COMPRESSION_HEADER_SIZE + k \<le> tc) \<and>
          high = 2 ^ 64 - 1 \<and> low \<le> high"
    let ?mid = "(low + (high - low) div 2) mod 2 ^ 64"
    have lh: "low \<le> high" and h: "high = 2 ^ 64 - 1" using a by simp_all
    have "low + (high - low) div 2 \<le> high" using lh by simp
    then have m: "?mid = low + (high - low) div 2" using h by simp
    have nz: "?mid \<noteq> 0" unfolding m using h by (cases "low = 0") simp_all
    from a obtain k c' where z: "zstd cctx dpc (take ?mid src) level = (ZSTD_size k, c')"
      "QR_COMPRESSION_HEADER_SIZE + k \<le> tc" by blast
    have low': "(?mid + 1) mod 2 ^ 64 \<le> high" using h by simp
    have step: "f zstd src level tc dpc c' ((?mid + 1) mod 2 ^ 64) high ?mid k = Some r"
      using 1(2) by (simp only: lh if_True Let_def nz if_False z prod.case zstd_result.case)
    from 1(1)[OF step] a low' show False by blast
  qed
qed

lemma fit_search_size_t_wraps:
  assumes "\<forall>c cap s lv. \<exists>k c'. zstd c cap s lv = (ZSTD_size k, c') \<and>
                  QR_COMPRESSION_HEADER_SIZE + k \<le> tc"
    and "low \<le> 2 ^ 64 - 1"
  shows "fit_search_size_t zstd src level tc dpc cctx low (2 ^ 64 - 1) best bp = None"
  using assms fit_search_size_t_wraps_step[of zstd src level tc dpc cctx low "2 ^ 64 - 1" best bp]
  by (cases "fit_search_size_t zstd src level tc dpc cctx low (2 ^ 64 - 1) best bp") auto

lemma fit_search_payload_fits:
  "fit_search zstd src level tc dpc c low high best bp = (c', best', bp') \<Longrightarrow>
   1 \<le> low \<Longrightarrow>
   best = 0 \<or> QR_COMPRESSION_HEADER_SIZE + bp \<le> tc \<Longrightarrow>
   best' = 0 \<or> QR_COMPRESSION_HEADER_SIZE + bp' \<le> tc"
proof (induction zstd src level tc dpc c low high best bp rule: fit_search.induct)
  case (1 zstd src level tc dpc cctx low high best bp)
  let ?mid = "low + (high - low) div 2"
  show ?case
  proof (cases "low \<le> high")
    case False
    then show ?thesis using "1.prems"(1,3) by (simp add: fit_search_done)
  next
    case True
    have mid: "?mid \<noteq> 0" using "1.prems"(2) by auto
    obtain r cctx' where z: "zstd cctx dpc (take ?mid src) level = (r, cctx')"
      by (cases "zstd cctx dpc (take ?mid src) level") auto
    note step = fit_search_step[where zstd=zstd and cctx=cctx and dpc=dpc and src=src
        and level=level, OF True "1.prems"(2) z]
    show ?thesis
    proof (cases r)
      case ZSTD_error
      have "fit_search zstd src level tc dpc cctx' low (?mid - 1) best bp = (c', best', bp')"
        using "1.prems"(1) ZSTD_error by (simp add: step)
      from "1.IH"(1)[OF True refl mid z[symmetric] ZSTD_error this "1.prems"(2,3)]
      show ?thesis .
    next
      case (ZSTD_size k)
      show ?thesis
      proof (cases "QR_COMPRESSION_HEADER_SIZE + k \<le> tc")
        case fit: True
        have e: "fit_search zstd src level tc dpc cctx' (?mid + 1) high ?mid k = (c', best', bp')"
          using "1.prems"(1) ZSTD_size fit by (simp add: step)
        have "?mid = 0 \<or> QR_COMPRESSION_HEADER_SIZE + k \<le> tc" using fit by simp
        from "1.IH"(2)[OF True refl mid z[symmetric] ZSTD_size fit e _ this]
        show ?thesis by simp
      next
        case nofit: False
        have "fit_search zstd src level tc dpc cctx' low (?mid - 1) best bp = (c', best', bp')"
          using "1.prems"(1) ZSTD_size nofit by (simp add: step)
        from "1.IH"(3)[OF True refl mid z[symmetric] ZSTD_size nofit this "1.prems"(2,3)]
        show ?thesis .
      qed
    qed
  qed
qed

lemma capacity_table:
  "list_all (\<lambda>v. 16 \<le> qr_max_data_size v 0) (map of_nat [1..<41])"
  by (simp add: upt_conv_Cons qr_max_data_size_def qr_version_max_data_def version_index_def
      size_t_of_int_def size_t_sub_def VPARAM_def vparam_def)

lemma version_of_int:
  assumes "1 \<le> (i::int)" "i \<le> 40"
  shows "1 \<le> (word_of_int i :: u8) \<and> (word_of_int i :: u8) \<le> 40"
proof -
  have "uint (word_of_int i :: u8) = i" using assms by (simp add: uint_word_of_int)
  then show ?thesis using assms by (simp add: word_le_def)
qed

lemma fit_target_ok:
  assumes "fit_config_ok cfg dst_capacity"
  shows "QR_COMPRESSION_HEADER_SIZE < fit_target cfg dst_capacity"
    and "qr_max_data_size (word_of_int (qr_version_param cfg)) 0 \<noteq> 0"
proof -
  from assms have v: "1 \<le> qr_version_param cfg" "qr_version_param cfg \<le> 40"
    and d: "QR_COMPRESSION_HEADER_SIZE < dst_capacity" by (simp_all add: fit_config_ok_def)
  note w = version_of_int[OF v]
  have c: "16 \<le> qr_max_data_size (word_of_int (qr_version_param cfg)) 0"
    using valid_version_induct[OF _ _ capacity_table, of "word_of_int (qr_version_param cfg)"] w
    by simp
  then show "qr_max_data_size (word_of_int (qr_version_param cfg)) 0 \<noteq> 0" by simp
  show "QR_COMPRESSION_HEADER_SIZE < fit_target cfg dst_capacity"
    using c d by (simp add: fit_target_def QR_COMPRESSION_HEADER_SIZE_def)
qed

lemma qrcon_compress_data_invalid:
  "\<not> fit_config_ok cfg dst_capacity \<Longrightarrow>
   cr_return (qrcon_compress_data zstd cfg cctx src src_size dst_capacity) = 0 \<and>
   cr_processed_size (qrcon_compress_data zstd cfg cctx src src_size dst_capacity) = 0"
  by (auto simp: qrcon_compress_data_def fit_config_ok_def Let_def)

lemma qrcon_compress_data_valid:
  assumes ok: "fit_config_ok cfg dst_capacity"
    and s: "fit_search zstd src (fit_level cfg) (fit_target cfg dst_capacity)
              (fit_target cfg dst_capacity - QR_COMPRESSION_HEADER_SIZE) cctx 1 src_size 0 0
            = (cctx1, best_size, bp)"
    and f: "zstd cctx1 (fit_target cfg dst_capacity - QR_COMPRESSION_HEADER_SIZE)
              (take best_size src) (fit_level cfg) = (r, cctx2)"
  shows "qrcon_compress_data zstd cfg cctx src src_size dst_capacity =
     (if best_size > 0 then
        (case r of
           ZSTD_error \<Rightarrow>
             \<lparr>cr_return = 0, cr_processed_size = 0,
              cr_header = Some (QR_COMPRESSION_MAGIC, word_of_nat best_size), cr_cctx = cctx2\<rparr>
         | ZSTD_size k \<Rightarrow>
             if k \<noteq> bp \<and> QR_COMPRESSION_HEADER_SIZE + k > fit_target cfg dst_capacity
             then \<lparr>cr_return = 0, cr_processed_size = 0,
                   cr_header = Some (QR_COMPRESSION_MAGIC, word_of_nat best_size),
                   cr_cctx = cctx2\<rparr>
             else \<lparr>cr_return = QR_COMPRESSION_HEADER_SIZE + k, cr_processed_size = best_size,
                   cr_header = Some (QR_COMPRESSION_MAGIC, word_of_nat best_size),
                   cr_cctx = cctx2\<rparr>)
      else \<lparr>cr_return = 0, cr_processed_size = 0, cr_header = None, cr_cctx = cctx1\<rparr>)"
proof -
  from ok have v: "\<not> (qr_version_param cfg < 1 \<or> qr_version_param cfg > 40)"
    by (auto simp: fit_config_ok_def)
  note t = fit_target_ok[OF ok]
  have tc: "(if dst_capacity < qr_max_data_size (word_of_int (qr_version_param cfg)) 0
             then dst_capacity else qr_max_data_size (word_of_int (qr_version_param cfg)) 0)
            = fit_target cfg dst_capacity"
    by (simp add: fit_target_def min_def)
  have lv: "(if compression_level cfg < 1 then 1
             else if 22 < compression_level cfg then 22 else compression_level cfg)
            = fit_level cfg" by (simp add: fit_level_def)
  have nle: "\<not> fit_target cfg dst_capacity \<le> QR_COMPRESSION_HEADER_SIZE" using t(1) by simp
  show ?thesis
    unfolding qrcon_compress_data_def Let_def
    by (simp only: v t(2) tc lv nle if_False s f prod.case split: zstd_result.split)
qed


text \<open>
  Claim C5.  Let the configured version be valid and the destination long enough for the
  header, let the source be shorter than the largest \<open>size_t\<close> (\<open>src_size < 2^64 - 1\<close>, as
  every buffer is), let the compressor's result on a prefix depend only on the prefix
  (\<open>R m\<close> for the prefix of length \<open>m\<close>), and let \<open>fits m\<close>, that is
  \<open>8 + R m \<le> target capacity\<close>, be monotone-decreasing on \<open>1..src_size\<close>.  Then the binary
  search ends: the loop with \<open>size_t\<close> arithmetic returns, and what it returns is the result
  of \<open>fit_search\<close>, from which \<open>qrcon_compress_data\<close> goes on.  If some prefix fits,
  \<open>*processed_size\<close> is the largest \<open>m\<close> in \<open>1..src_size\<close> that fits and the return value is
  8 plus the compressed size of that prefix; if none fits, both are 0.
\<close>

theorem fitter_binary_search_maximum:
  assumes ok: "fit_config_ok cfg dst_capacity"
    and tc: "tc = fit_target cfg dst_capacity"
    and det: "\<forall>c m. fst (zstd c (tc - QR_COMPRESSION_HEADER_SIZE) (take m src) (fit_level cfg)) = R m"
    and mono: "\<forall>m m'. 1 \<le> m \<and> m \<le> m' \<and> m' \<le> src_size \<and> fits R tc m' \<longrightarrow> fits R tc m"
    and bound: "src_size < 2 ^ 64 - 1"
    and out: "out = qrcon_compress_data zstd cfg cctx src src_size dst_capacity"
  shows "fit_search_size_t zstd src (fit_level cfg) tc (tc - QR_COMPRESSION_HEADER_SIZE)
           cctx 1 src_size 0 0 =
         Some (fit_search zstd src (fit_level cfg) tc (tc - QR_COMPRESSION_HEADER_SIZE)
                 cctx 1 src_size 0 0) \<and>
         ((\<exists>m. 1 \<le> m \<and> m \<le> src_size \<and> fits R tc m) \<longrightarrow>
            cr_processed_size out = Max {m. 1 \<le> m \<and> m \<le> src_size \<and> fits R tc m} \<and>
            (\<exists>k. R (cr_processed_size out) = ZSTD_size k \<and>
                 cr_return out = QR_COMPRESSION_HEADER_SIZE + k)) \<and>
         (\<not> (\<exists>m. 1 \<le> m \<and> m \<le> src_size \<and> fits R tc m) \<longrightarrow>
            cr_return out = 0 \<and> cr_processed_size out = 0)"
proof -
  note loop = fit_search_size_t_eq[OF bound, of zstd src "fit_level cfg" tc
      "tc - QR_COMPRESSION_HEADER_SIZE" cctx 1 0 0]
  let ?dpc = "tc - QR_COMPRESSION_HEADER_SIZE"
  let ?S = "{m. 1 \<le> m \<and> m \<le> src_size \<and> fits R tc m}"
  obtain cctx1 best bp where s: "fit_search zstd src (fit_level cfg) tc ?dpc cctx 1 src_size 0 0
      = (cctx1, best, bp)"
    by (cases "fit_search zstd src (fit_level cfg) tc ?dpc cctx 1 src_size 0 0") auto
  obtain r cctx2 where f: "zstd cctx1 ?dpc (take best src) (fit_level cfg) = (r, cctx2)"
    by (cases "zstd cctx1 ?dpc (take best src) (fit_level cfg)") auto
  have r: "r = R best" using det f by (metis fst_conv)
  have m: "(\<forall>m. best < m \<and> m \<le> src_size \<longrightarrow> \<not> fits R tc m) \<and>
      (best = 0 \<or> (1 \<le> best \<and> best \<le> src_size \<and> fits R tc best \<and> R best = ZSTD_size bp))"
  proof (rule fit_search_max[where zstd=zstd and dpc="?dpc" and src=src and level="fit_level cfg"
        and R=R and n=src_size and tc=tc, OF _ _ s])
    show "\<And>c m. fst (zstd c ?dpc (take m src) (fit_level cfg)) = R m" using det by simp
    show "\<And>m m'. 1 \<le> m \<Longrightarrow> m \<le> m' \<Longrightarrow> m' \<le> src_size \<Longrightarrow> fits R tc m' \<Longrightarrow> fits R tc m"
      using mono by blast
  qed simp_all
  note e = qrcon_compress_data_valid[OF ok s[unfolded tc] f[unfolded tc]]
  show ?thesis
  proof (cases "best = 0")
    case True
    then have none: "\<not> (\<exists>m. 1 \<le> m \<and> m \<le> src_size \<and> fits R tc m)" using m by auto
    have "cr_return out = 0 \<and> cr_processed_size out = 0" using e True by (simp add: out)
    then show ?thesis using none loop by blast
  next
    case False
    with m have b: "1 \<le> best" "best \<le> src_size" "fits R tc best" "R best = ZSTD_size bp"
      by auto
    have o: "cr_return out = QR_COMPRESSION_HEADER_SIZE + bp" "cr_processed_size out = best"
      using e False r b(4) by (simp_all add: out)
    have "Max ?S = best"
    proof (rule Max_eqI)
      show "finite ?S" by simp
      show "best \<in> ?S" using b by simp
      show "\<And>y. y \<in> ?S \<Longrightarrow> y \<le> best" using m by (metis (mono_tags, lifting) mem_Collect_eq not_le)
    qed
    then show ?thesis using o b loop by auto
  qed
qed

lemma example_target: "fit_target example_config 8192 = 16"
  "fit_config_ok example_config 8192" "fit_level example_config = 3"
  by (simp_all add: fit_target_def fit_config_ok_def fit_level_def example_config_def
      qr_max_data_size_def qr_version_max_data_def version_index_def size_t_of_int_def
      size_t_sub_def VPARAM_def vparam_def QR_COMPRESSION_HEADER_SIZE_def)

theorem fitter_binary_search_maximum_witness:
  "fit_search_size_t store_compressor (replicate 20 0) (fit_level example_config) 16
      (16 - QR_COMPRESSION_HEADER_SIZE) () 1 20 0 0 \<noteq> None \<and>
   cr_processed_size (qrcon_compress_data store_compressor example_config ()
      (replicate 20 0) 20 8192) = 8 \<and>
   cr_return (qrcon_compress_data store_compressor example_config ()
      (replicate 20 0) 20 8192) = 16"
proof -
  have bound: "(20::nat) < 2 ^ 64 - 1" by simp
  let ?R = "\<lambda>m. ZSTD_size (min 20 m)"
  let ?out = "qrcon_compress_data store_compressor example_config () (replicate 20 0) 20 8192"
  have det: "\<forall>c m. fst (store_compressor c (16 - QR_COMPRESSION_HEADER_SIZE)
      (take m (replicate 20 0)) (fit_level example_config)) = ?R m"
    by (simp add: store_compressor_def min.commute)
  have f: "\<And>m. fits ?R 16 m \<longleftrightarrow> m \<le> 8"
    by (auto simp: fits_def QR_COMPRESSION_HEADER_SIZE_def)
  have mono: "\<forall>m m'. 1 \<le> m \<and> m \<le> m' \<and> m' \<le> 20 \<and> fits ?R 16 m' \<longrightarrow> fits ?R 16 m"
    by (simp add: f)
  have S: "Max {m. 1 \<le> m \<and> m \<le> (20::nat) \<and> fits ?R 16 m} = 8"
    by (rule Max_eqI) (auto simp: f)
  have ex: "\<exists>m. 1 \<le> m \<and> m \<le> (20::nat) \<and> fits ?R 16 m" by (rule exI[of _ 1]) (simp add: f)
  from fitter_binary_search_maximum[where zstd=store_compressor and cfg=example_config
      and dst_capacity=8192 and tc=16 and src="replicate 20 0" and R="?R" and src_size=20
      and cctx="()" and out="?out",
      OF example_target(2) example_target(1)[symmetric] det mono bound refl] ex
  have "fit_search_size_t store_compressor (replicate 20 0) (fit_level example_config) 16
          (16 - QR_COMPRESSION_HEADER_SIZE) () 1 20 0 0 \<noteq> None \<and>
      cr_processed_size ?out = Max {m. 1 \<le> m \<and> m \<le> (20::nat) \<and> fits ?R 16 m} \<and>
      (\<exists>k. ?R (cr_processed_size ?out) = ZSTD_size k \<and>
           cr_return ?out = QR_COMPRESSION_HEADER_SIZE + k)" by auto
  then show ?thesis unfolding S by (simp add: QR_COMPRESSION_HEADER_SIZE_def)
qed

text \<open>
  Claim C6.  With the result of the search and of the final compression named, and a valid
  configuration: \<open>qrcon_compress_data\<close> returns 0 exactly when the search found no prefix, the
  final compression reports an error, or the final size overflows the target capacity; a final
  size that differs from the recorded one but fits is returned with its header.  With an
  invalid configuration it returns 0.  Whenever it returns 0, \<open>*processed_size\<close> is 0.
\<close>

theorem fitter_returns_zero_iff:
  assumes s: "fit_search zstd src (fit_level cfg) (fit_target cfg dst_capacity)
              (fit_target cfg dst_capacity - QR_COMPRESSION_HEADER_SIZE) cctx 1 src_size 0 0
            = (cctx1, best_size, best_compressed_payload)"
    and f: "zstd cctx1 (fit_target cfg dst_capacity - QR_COMPRESSION_HEADER_SIZE)
              (take best_size src) (fit_level cfg) = (final, cctx2)"
    and out: "out = qrcon_compress_data zstd cfg cctx src src_size dst_capacity"
  shows "(fit_config_ok cfg dst_capacity \<longrightarrow>
            (cr_return out = 0 \<longleftrightarrow>
               best_size = 0 \<or> final = ZSTD_error \<or>
               (\<exists>k. final = ZSTD_size k \<and>
                    fit_target cfg dst_capacity < QR_COMPRESSION_HEADER_SIZE + k)) \<and>
            (\<forall>k. 0 < best_size \<and> final = ZSTD_size k \<and> k \<noteq> best_compressed_payload \<and>
                 QR_COMPRESSION_HEADER_SIZE + k \<le> fit_target cfg dst_capacity \<longrightarrow>
                 cr_return out = QR_COMPRESSION_HEADER_SIZE + k \<and>
                 cr_processed_size out = best_size)) \<and>
         (\<not> fit_config_ok cfg dst_capacity \<longrightarrow> cr_return out = 0) \<and>
         (cr_return out = 0 \<longrightarrow> cr_processed_size out = 0)"
proof (cases "fit_config_ok cfg dst_capacity")
  case False
  then show ?thesis
    using qrcon_compress_data_invalid[OF False, of zstd cctx src src_size] by (simp add: out)
next
  case True
  note e = qrcon_compress_data_valid[OF True s f]
  show ?thesis
  proof (cases "best_size = 0")
    case z: True
    then show ?thesis using True e by (simp add: out)
  next
    case nz: False
    show ?thesis
    proof (cases final)
      case ZSTD_error
      then show ?thesis using True e nz by (simp add: out)
    next
      case (ZSTD_size k)
      have fitk: "k = best_compressed_payload \<Longrightarrow>
          QR_COMPRESSION_HEADER_SIZE + k \<le> fit_target cfg dst_capacity"
        using fit_search_payload_fits[OF s] nz by simp
      then show ?thesis using True e nz ZSTD_size
        by (auto simp: out QR_COMPRESSION_HEADER_SIZE_def)
    qed
  qed
qed

lemma counting_search:
  "fit_search counting_compressor [0, 0, 0] 3 16 (16 - QR_COMPRESSION_HEADER_SIZE) 0 1 3 0 0
     = (2, 3, 2)"
proof -
  have a: "counting_compressor 0 (16 - QR_COMPRESSION_HEADER_SIZE) (take (1 + (3 - 1) div 2) [0, 0, 0]) 3
      = (ZSTD_size 1, 1)" by (simp add: counting_compressor_def)
  have b: "counting_compressor 1 (16 - QR_COMPRESSION_HEADER_SIZE) (take (3 + (3 - 3) div 2) [0, 0, 0]) 3
      = (ZSTD_size 2, 2)" by (simp add: counting_compressor_def)
  have "fit_search counting_compressor [0, 0, 0] 3 16 (16 - QR_COMPRESSION_HEADER_SIZE) 0 1 3 0 0
      = fit_search counting_compressor [0, 0, 0] 3 16 (16 - QR_COMPRESSION_HEADER_SIZE) 1 3 3 2 1"
    by (subst fit_search_step[where zstd=counting_compressor and cctx=0 and src="[0, 0, 0]"
          and level=3, OF _ _ a]) (simp_all add: QR_COMPRESSION_HEADER_SIZE_def eval_nat_numeral)
  also have "\<dots> = fit_search counting_compressor [0, 0, 0] 3 16
      (16 - QR_COMPRESSION_HEADER_SIZE) 2 4 3 3 2"
    by (subst fit_search_step[where zstd=counting_compressor and cctx=1 and src="[0, 0, 0]"
          and level=3, OF _ _ b]) (simp_all add: QR_COMPRESSION_HEADER_SIZE_def eval_nat_numeral)
  also have "\<dots> = (2, 3, 2)" by (simp add: fit_search_done)
  finally show ?thesis .
qed

lemma failing_search:
  "fit_search failing_compressor [0] 3 16 (16 - QR_COMPRESSION_HEADER_SIZE) () 1 1 0 0
     = ((), 0, 0)"
proof -
  have a: "failing_compressor () (16 - QR_COMPRESSION_HEADER_SIZE) (take (1 + (1 - 1) div 2) [0]) 3
      = (ZSTD_error, ())" by (simp add: failing_compressor_def)
  have "fit_search failing_compressor [0] 3 16 (16 - QR_COMPRESSION_HEADER_SIZE) () 1 1 0 0
      = fit_search failing_compressor [0] 3 16 (16 - QR_COMPRESSION_HEADER_SIZE) () 1 0 0 0"
    by (subst fit_search_step[where zstd=failing_compressor and cctx="()" and src="[0]"
          and level=3, OF _ _ a]) simp_all
  also have "\<dots> = ((), 0, 0)" by (simp add: fit_search_done)
  finally show ?thesis .
qed

theorem fitter_returns_zero_iff_witness:
  "cr_return (qrcon_compress_data counting_compressor example_config 0 [0, 0, 0] 3 8192) = 9 \<and>
   cr_processed_size (qrcon_compress_data counting_compressor example_config 0 [0, 0, 0] 3 8192)
     = 3 \<and>
   cr_return (qrcon_compress_data failing_compressor example_config () [0] 1 8192) = 0 \<and>
   cr_processed_size (qrcon_compress_data failing_compressor example_config () [0] 1 8192) = 0 \<and>
   cr_return (qrcon_compress_data failing_compressor
      (example_config\<lparr>qr_version_param := 41\<rparr>) () [0] 1 8192) = 0"
proof -
  have f1: "counting_compressor 2 (fit_target example_config 8192 - QR_COMPRESSION_HEADER_SIZE)
      (take 3 [0, 0, 0]) (fit_level example_config) = (ZSTD_size 1, 3)"
    by (simp add: counting_compressor_def)
  have f2: "failing_compressor () (fit_target example_config 8192 - QR_COMPRESSION_HEADER_SIZE)
      (take 0 [0]) (fit_level example_config) = (ZSTD_error, ())"
    by (simp add: failing_compressor_def)
  have bad: "\<not> fit_config_ok (example_config\<lparr>qr_version_param := 41\<rparr>) 8192"
    by (simp add: fit_config_ok_def example_config_def)
  obtain c b p where s3: "fit_search failing_compressor [0]
      (fit_level (example_config\<lparr>qr_version_param := 41\<rparr>))
      (fit_target (example_config\<lparr>qr_version_param := 41\<rparr>) 8192)
      (fit_target (example_config\<lparr>qr_version_param := 41\<rparr>) 8192 - QR_COMPRESSION_HEADER_SIZE)
      () 1 1 0 0 = (c, b, p)"
    using prod_cases3 by blast
  obtain r c' where f3: "failing_compressor c
      (fit_target (example_config\<lparr>qr_version_param := 41\<rparr>) 8192 - QR_COMPRESSION_HEADER_SIZE)
      (take b [0]) (fit_level (example_config\<lparr>qr_version_param := 41\<rparr>)) = (r, c')"
    by (cases "failing_compressor c
      (fit_target (example_config\<lparr>qr_version_param := 41\<rparr>) 8192 - QR_COMPRESSION_HEADER_SIZE)
      (take b [0]) (fit_level (example_config\<lparr>qr_version_param := 41\<rparr>))") auto
  from fitter_returns_zero_iff[OF counting_search[folded example_target(1) example_target(3)] f1 refl]
       fitter_returns_zero_iff[OF failing_search[folded example_target(1) example_target(3)] f2 refl]
       fitter_returns_zero_iff[OF s3 f3 refl] bad
  show ?thesis
    by (simp add: example_target QR_COMPRESSION_HEADER_SIZE_def)
qed

section \<open>The history driver\<close>





section \<open>The image painter\<close>

subsection \<open>The walk over the modules\<close>

lemma wf_width_form:
  assumes "(W::nat) mod 4 = 1" "21 \<le> W"
  shows "\<exists>j. W = 4 * j + 21"
proof -
  have "W = 4 * (W div 4) + 1" using assms(1) by presburger
  moreover have "5 \<le> W div 4" using assms(2) by presburger
  ultimately have "W = 4 * (W div 4 - 5) + 21" by presburger
  then show ?thesis ..
qed

lemma col_type_small:
  assumes "W mod 4 = 1" "21 \<le> W"
  shows "col_type W 0 = 0" "col_type W 1 = 3" "col_type W 2 = 2" "col_type W 3 = 1"
      "col_type W 4 = 0" "col_type W 5 = 3" "col_type W 6 = 2" "col_type W 7 = 2" "col_type W 8 = 1"
proof -
  obtain j where k: "W = 4 * j + 21" using wf_width_form[OF assms] by blast
  show "col_type W 0 = 0" "col_type W 1 = 3" "col_type W 2 = 2" "col_type W 3 = 1"
      "col_type W 4 = 0" "col_type W 5 = 3" "col_type W 6 = 2" "col_type W 7 = 2" "col_type W 8 = 1"
    unfolding col_type_def k by simp_all
qed

lemma next_nat_rank_low:
  assumes "wf_width W" "x \<le> 7" "y < W" "\<not> (x = 0 \<and> y = W - 1)"
  shows "fst (next_nat W x y) < W \<and> snd (next_nat W x y) < W \<and>
         walk_rank W (fst (next_nat W x y)) (snd (next_nat W x y)) < walk_rank W x y"
proof -
  from assms(1) have w: "W mod 4 = 1" "21 \<le> W" "W \<le> 177" by (simp_all add: wf_width_def)
  note c0 = col_type_small[OF w(1,2)]
  have c1: "col_type W (Suc 0) = 3" using c0(2) by simp
  note c = c0 c1
  from assms(2) consider "x = 0" | "x = 1" | "x = 2" | "x = 3" | "x = 4" | "x = 5" | "x = 6"
    | "x = 7" by arith
  then show ?thesis
  proof cases
    case 1 then show ?thesis using assms(3,4) w(2,3)
      by (auto simp: next_nat_def walk_rank_def walk_unit_def c)
  next
    case 2 then show ?thesis using assms(3,4) w(2,3)
      by (auto simp: next_nat_def walk_rank_def walk_unit_def c)
  next
    case 3 then show ?thesis using assms(3,4) w(2,3)
      by (auto simp: next_nat_def walk_rank_def walk_unit_def c)
  next
    case 4 then show ?thesis using assms(3,4) w(2,3)
      by (auto simp: next_nat_def walk_rank_def walk_unit_def c)
  next
    case 5 then show ?thesis using assms(3,4) w(2,3)
      by (auto simp: next_nat_def walk_rank_def walk_unit_def c)
  next
    case 6 then show ?thesis using assms(3,4) w(2,3)
      by (auto simp: next_nat_def walk_rank_def walk_unit_def c)
  next
    case 7 then show ?thesis using assms(3,4) w(2,3)
      by (auto simp: next_nat_def walk_rank_def walk_unit_def c)
  next
    case 8 then show ?thesis using assms(3,4) w(2,3)
      by (auto simp: next_nat_def walk_rank_def walk_unit_def c)
  qed
qed

lemma col_type_high:
  assumes "8 \<le> x"
  shows "col_type W x = (W - x) mod 4" "col_type W (x - Suc 0) = (W - (x - 1)) mod 4"
    "col_type W (Suc x) = (W - (x + 1)) mod 4"
  using assms by (simp_all add: col_type_def)

lemma walk_unit_high:
  assumes "8 \<le> x"
  shows "walk_unit x = 4 + (x - 7) div 2" "walk_unit (x - Suc 0) = 4 + (x - 8) div 2"
    "walk_unit (Suc x) = 4 + (x - 6) div 2"
proof -
  from assms have a: "\<not> x \<le> 1" "\<not> x \<le> 3" "\<not> x \<le> 5" "x \<noteq> 6" by arith+
  from assms have b: "\<not> x - Suc 0 \<le> 1" "\<not> x - Suc 0 \<le> 3" "\<not> x - Suc 0 \<le> 5" "x - Suc 0 \<noteq> 6"
    "x - Suc 0 - 7 = x - 8" by arith+
  from assms have c: "\<not> Suc x \<le> 1" "\<not> Suc x \<le> 3" "\<not> Suc x \<le> 5" "Suc x \<noteq> 6"
    "Suc x - 7 = x - 6" by arith+
  show "walk_unit x = 4 + (x - 7) div 2" unfolding walk_unit_def by (simp only: a if_False)
  show "walk_unit (x - Suc 0) = 4 + (x - 8) div 2" unfolding walk_unit_def by (simp only: b if_False)
  show "walk_unit (Suc x) = 4 + (x - 6) div 2" unfolding walk_unit_def by (simp only: c if_False)
qed

lemma mod4_below:
  fixes e :: nat
  shows "(e + 1) mod 4 = 0 \<Longrightarrow> e mod 4 = 3"
    and "(e + 1) mod 4 = 2 \<Longrightarrow> e mod 4 = 1"
  by presburger+

lemma mod4_above:
  fixes d :: nat
  shows "d mod 4 = 0 \<Longrightarrow> (d + 1) mod 4 = 1"
    and "d mod 4 = 1 \<Longrightarrow> (d + 1) mod 4 = 2"
    and "d mod 4 = 2 \<Longrightarrow> (d + 1) mod 4 = 3"
    and "d mod 4 = 3 \<Longrightarrow> (d + 1) mod 4 = 0"
  by presburger+

lemma col_x_mod4:
  fixes x d :: nat
  shows "(x + d) mod 4 = 1 \<Longrightarrow> d mod 4 = 0 \<Longrightarrow> odd x"
    and "(x + d) mod 4 = 1 \<Longrightarrow> d mod 4 = 1 \<Longrightarrow> even x"
    and "(x + d) mod 4 = 1 \<Longrightarrow> d mod 4 = 2 \<Longrightarrow> odd x"
    and "(x + d) mod 4 = 1 \<Longrightarrow> d mod 4 = 3 \<Longrightarrow> even x"
  by presburger+

lemma unit_halves:
  fixes x :: nat
  shows "odd x \<Longrightarrow> 8 \<le> x \<Longrightarrow> (x - 6) div 2 = (x - 7) div 2"
    and "odd x \<Longrightarrow> 8 \<le> x \<Longrightarrow> (x - 8) div 2 + 1 = (x - 7) div 2"
    and "even x \<Longrightarrow> 8 \<le> x \<Longrightarrow> (x - 8) div 2 = (x - 7) div 2"
  by presburger+

lemma col_neighbours:
  assumes "(W::nat) mod 4 = 1" "8 \<le> x" "x < W"
  shows "(W - x) mod 4 = 0 \<Longrightarrow>
           (W - (x + 1)) mod 4 = 3 \<and> (W - (x - 1)) mod 4 = 1 \<and> odd x \<and> x + 1 < W"
    and "(W - x) mod 4 = 1 \<Longrightarrow> (W - (x - 1)) mod 4 = 2 \<and> even x"
    and "(W - x) mod 4 = 2 \<Longrightarrow>
           (W - (x + 1)) mod 4 = 1 \<and> (W - (x - 1)) mod 4 = 3 \<and> odd x \<and> x + 1 < W"
    and "(W - x) mod 4 = 3 \<Longrightarrow> (W - (x - 1)) mod 4 = 0 \<and> even x"
proof -
  have up: "W - (x - 1) = (W - x) + 1" using assms(2,3) by simp
  have dn: "(W - (x + 1)) + 1 = W - x" using assms(3) by simp
  have sum: "(x + (W - x)) mod 4 = 1" using assms(1,3) by simp
  have pos: "x + 1 < W" if "(W - x) mod 4 \<noteq> 1"
  proof -
    have "W - x \<noteq> 1" using that by auto
    then show ?thesis using assms(3) by simp
  qed
  {
    assume t: "(W - x) mod 4 = 0"
    have "((W - (x + 1)) + 1) mod 4 = 0" unfolding dn by (rule t)
    then have a: "(W - (x + 1)) mod 4 = 3" by (rule mod4_below(1))
    have b: "(W - (x - 1)) mod 4 = 1" unfolding up using t by (rule mod4_above(1))
    have c: "odd x" using sum t by (rule col_x_mod4(1))
    have d: "x + 1 < W" using t by (intro pos) simp
    from a b c d
    show "(W - (x + 1)) mod 4 = 3 \<and> (W - (x - 1)) mod 4 = 1 \<and> odd x \<and> x + 1 < W" by blast
  }
  {
    assume t: "(W - x) mod 4 = 1"
    have b: "(W - (x - 1)) mod 4 = 2" unfolding up using t by (rule mod4_above(2))
    have c: "even x" using sum t by (rule col_x_mod4(2))
    from b c show "(W - (x - 1)) mod 4 = 2 \<and> even x" by blast
  }
  {
    assume t: "(W - x) mod 4 = 2"
    have "((W - (x + 1)) + 1) mod 4 = 2" unfolding dn by (rule t)
    then have a: "(W - (x + 1)) mod 4 = 1" by (rule mod4_below(2))
    have b: "(W - (x - 1)) mod 4 = 3" unfolding up using t by (rule mod4_above(3))
    have c: "odd x" using sum t by (rule col_x_mod4(3))
    have d: "x + 1 < W" using t by (intro pos) simp
    from a b c d
    show "(W - (x + 1)) mod 4 = 1 \<and> (W - (x - 1)) mod 4 = 3 \<and> odd x \<and> x + 1 < W" by blast
  }
  {
    assume t: "(W - x) mod 4 = 3"
    have b: "(W - (x - 1)) mod 4 = 0" unfolding up using t by (rule mod4_above(4))
    have c: "even x" using sum t by (rule col_x_mod4(4))
    from b c show "(W - (x - 1)) mod 4 = 0 \<and> even x" by blast
  }
qed

lemma next_nat_rank_high:
  assumes "wf_width W" "8 \<le> x" "x < W" "y < W"
  shows "fst (next_nat W x y) < W \<and> snd (next_nat W x y) < W \<and>
         walk_rank W (fst (next_nat W x y)) (snd (next_nat W x y)) < walk_rank W x y"
proof -
  from assms(1) have w: "W mod 4 = 1" "21 \<le> W" "W \<le> 177" by (simp_all add: wf_width_def)
  note ct = col_type_high[OF assms(2), of W]
  note u = walk_unit_high[OF assms(2)]
  note nb = col_neighbours[OF w(1) assms(2,3)]
  have x6: "x \<noteq> 6" "x - Suc 0 \<noteq> 6" "x \<noteq> 7" "Suc x \<noteq> 6" "x \<noteq> 5"
    using assms(2) by auto
  have "(W - x) mod 4 < 4" by simp
  then consider (t0) "(W - x) mod 4 = 0" | (t1) "(W - x) mod 4 = 1" | (t2) "(W - x) mod 4 = 2"
    | (t3) "(W - x) mod 4 = 3" by arith
  then show ?thesis
  proof cases
    case t0
    note a = nb(1)[OF t0]
    have r: "walk_rank W x y = (4 + (x - 7) div 2) * 400 + (2 * (W - 1 - y) + 1)"
      by (simp add: walk_rank_def x6 u ct t0)
    show ?thesis
    proof (cases "y < W - 1")
      case True
      have n: "next_nat W x y = (Suc x, Suc y)" using True by (simp add: next_nat_def ct t0)
      have r': "walk_rank W (Suc x) (Suc y) = (4 + (x - 6) div 2) * 400 + (2 * (W - 1 - Suc y) + 2)"
        using a by (simp add: walk_rank_def x6 u ct)
      have h: "(x - 6) div 2 = (x - 7) div 2" using a assms(2) by (intro unit_halves(1)) simp_all
      have e: "Suc x < W" using a by simp
      show ?thesis unfolding n fst_conv snd_conv r r' h using True e by (simp; arith)
    next
      case False
      have n: "next_nat W x y = (x - Suc 0, y)" using False by (simp add: next_nat_def ct t0)
      have r': "walk_rank W (x - Suc 0) y = (4 + (x - 8) div 2) * 400 + (2 * y + 2)"
        using a by (simp add: walk_rank_def x6 u ct)
      have h: "(x - 8) div 2 + 1 = (x - 7) div 2" using a assms(2) by (intro unit_halves(2)) simp_all
      show ?thesis unfolding n fst_conv snd_conv r r' h[symmetric] using assms(3,4) w(3) by (simp; arith)
    qed
  next
    case t1
    note a = nb(2)[OF t1]
    have r: "walk_rank W x y = (4 + (x - 7) div 2) * 400 + (2 * y + 2)"
      by (simp add: walk_rank_def x6 u ct t1)
    have n: "next_nat W x y = (x - Suc 0, y)" by (simp add: next_nat_def ct t1 x6)
    have r': "walk_rank W (x - Suc 0) y = (4 + (x - 8) div 2) * 400 + (2 * y + 1)"
      using a by (simp add: walk_rank_def x6 u ct)
    have h: "(x - 8) div 2 = (x - 7) div 2" using a assms(2) by (intro unit_halves(3)) simp_all
    show ?thesis unfolding n fst_conv snd_conv r r' h using assms(3,4) by (simp; arith)
  next
    case t2
    note a = nb(3)[OF t2]
    have r: "walk_rank W x y = (4 + (x - 7) div 2) * 400 + (2 * y + 1)"
      by (simp add: walk_rank_def x6 u ct t2)
    show ?thesis
    proof (cases "0 < y")
      case True
      have n: "next_nat W x y = (Suc x, y - Suc 0)" using True by (simp add: next_nat_def ct t2)
      have r': "walk_rank W (Suc x) (y - Suc 0) = (4 + (x - 6) div 2) * 400 + (2 * (y - Suc 0) + 2)"
        using a by (simp add: walk_rank_def x6 u ct)
      have h: "(x - 6) div 2 = (x - 7) div 2" using a assms(2) by (intro unit_halves(1)) simp_all
      have e: "Suc x < W" using a by simp
      show ?thesis unfolding n fst_conv snd_conv r r' h using True e assms(4) by (simp; arith)
    next
      case False
      have n: "next_nat W x y = (x - Suc 0, y)" using False by (simp add: next_nat_def ct t2)
      have r': "walk_rank W (x - Suc 0) y = (4 + (x - 8) div 2) * 400 + (2 * (W - 1 - y) + 2)"
        using a by (simp add: walk_rank_def x6 u ct)
      have h: "(x - 8) div 2 + 1 = (x - 7) div 2" using a assms(2) by (intro unit_halves(2)) simp_all
      show ?thesis unfolding n fst_conv snd_conv r r' h[symmetric] using assms(3,4) w(3) False by (simp; arith)
    qed
  next
    case t3
    note a = nb(4)[OF t3]
    have r: "walk_rank W x y = (4 + (x - 7) div 2) * 400 + (2 * (W - 1 - y) + 2)"
      by (simp add: walk_rank_def x6 u ct t3)
    have n: "next_nat W x y = (x - Suc 0, y)" by (simp add: next_nat_def ct t3 x6)
    have r': "walk_rank W (x - Suc 0) y = (4 + (x - 8) div 2) * 400 + (2 * (W - 1 - y) + 1)"
      using a by (simp add: walk_rank_def x6 u ct)
    have h: "(x - 8) div 2 = (x - 7) div 2" using a assms(2) by (intro unit_halves(3)) simp_all
    show ?thesis unfolding n fst_conv snd_conv r r' h using assms(3,4) by (simp; arith)
  qed
qed

lemma next_nat_rank:
  assumes "wf_width W" "x < W" "y < W" "\<not> (x = 0 \<and> y = W - 1)"
  shows "fst (next_nat W x y) < W \<and> snd (next_nat W x y) < W \<and>
         walk_rank W (fst (next_nat W x y)) (snd (next_nat W x y)) < walk_rank W x y"
proof (cases "x \<le> 7")
  case True
  then show ?thesis by (rule next_nat_rank_low[OF assms(1) _ assms(3,4)])
next
  case False
  then have "8 \<le> x" by simp
  then show ?thesis by (rule next_nat_rank_high[OF assms(1) _ assms(2,3)])
qed

lemma int_rem_nat: "int_rem (int n) 4 = int (n mod 4)"
  by (cases "n = 0") (simp_all add: int_rem_def zmod_int)

lemma u8_of_nat_small:
  "m < 4 \<Longrightarrow> ((of_nat m :: u8) = 2) = (m = 2)"
  "m < 4 \<Longrightarrow> ((of_nat m :: u8) = 0) = (m = 0)"
proof -
  assume "m < 4"
  then have "m = 0 \<or> m = 1 \<or> m = 2 \<or> m = 3" by arith
  then show "((of_nat m :: u8) = 2) = (m = 2)" by auto
next
  assume "m < 4"
  then have "m = 0 \<or> m = 1 \<or> m = 2 \<or> m = 3" by arith
  then show "((of_nat m :: u8) = 0) = (m = 0)" by auto
qed

lemma qr_image_is_last_nat:
  assumes "1 \<le> unat (img_width qr)"
  shows "qr_image_is_last qr x y \<longleftrightarrow> unat x = 0 \<and> unat y = unat (img_width qr) - 1"
proof -
  have "uint (img_width qr) - 1 = int (unat (img_width qr) - 1)"
    using assms by (simp add: of_nat_diff)
  moreover have "uint y = int (unat y)" by simp
  ultimately have "uint y = uint (img_width qr) - 1 \<longleftrightarrow> unat y = unat (img_width qr) - 1"
    by (simp only: of_nat_eq_iff)
  then show ?thesis by (simp add: qr_image_is_last_def unat_eq_0)
qed

lemma qr_image_next_nat:
  assumes wf: "wf_width (unat (img_width qr))"
    and x: "unat x < unat (img_width qr)" and y: "unat y < unat (img_width qr)"
    and nl: "\<not> qr_image_is_last qr x y"
  shows "qr_image_next qr x y =
     (of_nat (fst (next_nat (unat (img_width qr)) (unat x) (unat y))),
      of_nat (snd (next_nat (unat (img_width qr)) (unat x) (unat y))))"
proof -
  define W where "W = unat (img_width qr)"
  define X where "X = unat x"
  define Y where "Y = unat y"
  from wf have w: "W mod 4 = 1" "21 \<le> W" "W \<le> 177" by (simp_all add: wf_width_def W_def)
  have xw: "X < W" and yw: "Y < W" using x y by (simp_all add: X_def Y_def W_def)
  have x256: "X < 256" "Y < 256" using xw yw w(3) by simp_all
  have nl': "\<not> (X = 0 \<and> Y = W - 1)"
    using nl qr_image_is_last_nat[of qr x y] w(2) by (simp add: W_def X_def Y_def)
  have le6: "(x \<le> 6) = (X \<le> 6)" by (simp add: word_le_nat_alt X_def)
  have adj: "unat (if x \<le> 6 then x + 1 else x) = (if X \<le> 6 then X + 1 else X)"
    using x256 by (simp add: le6 X_def unat_word_ariths)
  have adjle: "(if X \<le> 6 then X + 1 else X) \<le> W" using xw w(2) by simp
  have ctype: "(word_of_int (int_rem (uint (img_width qr) - uint (if x \<le> 6 then x + 1 else x)) 4) :: u8)
      = of_nat (col_type W X)"
  proof -
    have a1: "uint (img_width qr) = int W" by (simp add: W_def)
    have a2: "uint (if x \<le> 6 then x + 1 else x) = int (if X \<le> 6 then X + 1 else X)"
      by (simp only: uint_nat adj)
    have "uint (img_width qr) - uint (if x \<le> 6 then x + 1 else x)
        = int (W - (if X \<le> 6 then X + 1 else X))"
      by (simp only: a1 a2 of_nat_diff[OF adjle])
    then show ?thesis by (simp only: int_rem_nat col_type_def of_int_of_nat_eq)
  qed
  have ct4: "col_type W X < 4" by (simp add: col_type_def)
  have ypos: "(y > 0) = (0 < Y)" by (simp add: Y_def word_greater_zero_iff unat_gt_0)
  have ylt: "(uint y < uint (img_width qr) - 1) = (Y < W - 1)"
  proof -
    have "uint (img_width qr) - 1 = int (W - 1)" using w(2) by (simp add: W_def of_nat_diff)
    moreover have "uint y = int Y" by (simp add: Y_def)
    ultimately show ?thesis by (simp only: of_nat_less_iff)
  qed
  have x7: "(x = 7) = (X = 7)" by (simp add: X_def word_unat_eq_iff)
  have xs: "x + 1 = of_nat (X + 1)" by (simp add: X_def)
  have ys: "y + 1 = of_nat (Y + 1)" by (simp add: Y_def)
  have ym: "0 < Y \<Longrightarrow> y - 1 = of_nat (Y - 1)" by (simp add: Y_def of_nat_diff)
  have xm: "0 < X \<Longrightarrow> x - 1 = of_nat (X - 1)" by (simp add: X_def of_nat_diff)
  have xm2: "X = 7 \<Longrightarrow> x - 2 = of_nat (X - 2)" using x7 by simp
  have c0: "col_type W 0 = 0" using col_type_small(1)[OF w(1,2)] .
  have xpos: "col_type W X \<noteq> 0 \<Longrightarrow> 0 < X" using c0 by (cases "X = 0") simp_all
  have xpos': "\<not> Y < W - 1 \<Longrightarrow> 0 < X"
  proof -
    assume "\<not> Y < W - 1"
    then have "Y = W - 1" using yw by simp
    then show "0 < X" using nl' by simp
  qed
  show ?thesis
    unfolding qr_image_next_def Let_def ctype u8_of_nat_small[OF ct4] ypos ylt x7
      W_def[symmetric] X_def[symmetric] Y_def[symmetric] next_nat_def
    using xs ys ym xm xm2 xpos xpos' yw
    by (auto simp del: of_nat_add of_nat_diff)
qed

lemma qr_image_next_step:
  assumes wf: "wf_width (unat (img_width qr))" and on: "on_image qr (x, y)"
    and nl: "\<not> qr_image_is_last qr x y"
  shows "on_image qr (qr_image_next qr x y) \<and>
         image_rank qr (qr_image_next qr x y) < image_rank qr (x, y)"
proof -
  let ?W = "unat (img_width qr)"
  let ?n = "next_nat ?W (unat x) (unat y)"
  from on have x: "unat x < ?W" and y: "unat y < ?W" by (simp_all add: on_image_def)
  have nl': "\<not> (unat x = 0 \<and> unat y = ?W - 1)"
    using nl wf qr_image_is_last_nat[of qr x y] by (simp add: wf_width_def)
  note r = next_nat_rank[OF wf x y nl']
  note e = qr_image_next_nat[OF wf x y nl]
  have w: "?W \<le> 177" using wf by (simp add: wf_width_def)
  have a: "unat (of_nat (fst ?n) :: u8) = fst ?n" using r w by (simp add: unat_of_nat take_bit_nat_eq_self)
  have b: "unat (of_nat (snd ?n) :: u8) = snd ?n" using r w by (simp add: unat_of_nat take_bit_nat_eq_self)
  show ?thesis unfolding e on_image_def image_rank_def fst_conv snd_conv a b using r by simp
qed

lemma skip_reserved_total:
  assumes wf: "wf_width (unat (img_width qr))"
  shows "on_image qr p \<Longrightarrow> \<exists>p'. skip_reserved qr p = Some p' \<and> on_image qr p'"
proof (induction "image_rank qr p" arbitrary: p rule: less_induct)
  case less
  show ?case
  proof (cases "qr_image_is_reserved qr (fst p) (snd p) \<and> \<not> qr_image_is_last qr (fst p) (snd p)")
    case True
    from less.prems have on: "on_image qr (fst p, snd p)" by simp
    from True have nl: "\<not> qr_image_is_last qr (fst p) (snd p)" by simp
    note s = qr_image_next_step[OF wf on nl]
    from s have lt: "image_rank qr (qr_image_next qr (fst p) (snd p)) < image_rank qr p" by simp
    from less.hyps[OF lt] s obtain p' where
      "skip_reserved qr (qr_image_next qr (fst p) (snd p)) = Some p'" "on_image qr p'" by blast
    then show ?thesis using True by (subst skip_reserved.simps) simp
  next
    case False
    then show ?thesis using less.prems by (subst skip_reserved.simps) (cases p, auto)
  qed
qed

lemma qr_image_set_frame: "same_frame qr (qr_image_set qr x y)"
  by (simp add: same_frame_def qr_image_set_def Let_def)

lemma qr_image_xor_frame: "same_frame qr (qr_image_xor qr x y)"
  by (simp add: same_frame_def qr_image_xor_def Let_def)

lemma same_frame_refl: "same_frame qr qr"
  by (simp add: same_frame_def)

lemma same_frame_trans: "same_frame a b \<Longrightarrow> same_frame b c \<Longrightarrow> same_frame a c"
  by (simp add: same_frame_def)

lemma same_frame_last:
  "same_frame qr qr' \<Longrightarrow> qr_image_is_last qr' x y = qr_image_is_last qr x y"
  by (simp add: same_frame_def qr_image_is_last_def)

lemma same_frame_next:
  "same_frame qr qr' \<Longrightarrow> qr_image_next qr' x y = qr_image_next qr x y"
  by (simp add: same_frame_def qr_image_next_def)

lemma same_frame_on:
  "same_frame qr qr' \<Longrightarrow> on_image qr' p = on_image qr p"
  by (simp add: same_frame_def on_image_def)

lemma same_frame_rank:
  "same_frame qr qr' \<Longrightarrow> image_rank qr' p = image_rank qr p"
  by (simp add: same_frame_def image_rank_def)

lemma fill_remaining_total:
  assumes wf: "wf_width (unat (img_width qr0))"
  shows "same_frame qr0 qr \<Longrightarrow> on_image qr0 p \<Longrightarrow>
         \<exists>qr'. fill_remaining qr p = Some qr' \<and> same_frame qr0 qr'"
proof (induction "image_rank qr0 p" arbitrary: p qr rule: less_induct)
  case less
  note sf = less.prems(1)
  show ?case
  proof (cases "qr_image_is_last qr (fst p) (snd p)")
    case True
    then show ?thesis using sf by (subst fill_remaining.simps) simp
  next
    case False
    let ?qr = "if \<not> qr_image_is_reserved qr (fst p) (snd p)
               then qr_image_set qr (fst p) (snd p) else qr"
    from less.prems(2) have on: "on_image qr0 (fst p, snd p)" by simp
    from False have nl: "\<not> qr_image_is_last qr0 (fst p) (snd p)"
      by (simp add: same_frame_last[OF sf])
    note s = qr_image_next_step[OF wf on nl]
    have sf': "same_frame qr0 ?qr"
      using sf same_frame_trans[OF sf qr_image_set_frame] by simp
    from s have lt: "image_rank qr0 (qr_image_next qr0 (fst p) (snd p)) < image_rank qr0 p"
      by simp
    from less.hyps[OF lt sf'] s obtain qr' where
      "fill_remaining ?qr (qr_image_next qr0 (fst p) (snd p)) = Some qr'" "same_frame qr0 qr'"
      by blast
    then show ?thesis using False
      by (subst fill_remaining.simps) (simp add: same_frame_next[OF sf])
  qed
qed

lemma draw_bits_total:
  assumes wf: "wf_width (unat (img_width qr0))"
  shows "same_frame qr0 qr \<Longrightarrow> on_image qr0 (x, y) \<Longrightarrow>
         \<exists>qr' x' y'. draw_bits byte bits (qr, x, y) = Some (qr', x', y') \<and>
                      same_frame qr0 qr' \<and> on_image qr0 (x', y')"
proof (induction bits arbitrary: qr x y)
  case Nil
  then show ?case by simp
next
  case (Cons b bits)
  let ?qr = "if \<not> bit byte b then qr_image_set qr x y else qr"
  have sf': "same_frame qr0 ?qr"
    using Cons.prems(1) same_frame_trans[OF Cons.prems(1) qr_image_set_frame] by simp
  have wf': "wf_width (unat (img_width ?qr))" using wf sf' by (simp add: same_frame_def)
  show ?case
  proof (cases "qr_image_is_last ?qr x y")
    case True
    then show ?thesis using sf' Cons.prems(2) by (simp add: Let_def)
  next
    case False
    then have nl: "\<not> qr_image_is_last qr0 x y" by (simp add: same_frame_last[OF sf'])
    note s = qr_image_next_step[OF wf Cons.prems(2) nl]
    have on': "on_image ?qr (qr_image_next ?qr x y)"
      using s by (simp add: same_frame_on[OF sf'] same_frame_next[OF sf'])
    from skip_reserved_total[OF wf' on'] obtain p' where
      p: "skip_reserved ?qr (qr_image_next ?qr x y) = Some p'" "on_image ?qr p'" by blast
    have on0: "on_image qr0 (fst p', snd p')" using p(2) by (simp add: same_frame_on[OF sf'])
    from Cons.IH[OF sf' on0] obtain qr' x' y' where
      "draw_bits byte bits (?qr, fst p', snd p') = Some (qr', x', y')"
      "same_frame qr0 qr'" "on_image qr0 (x', y')" by blast
    then show ?thesis using False p(1)
      by (cases p') (simp add: Let_def qr_image_next_available_def)
  qed
qed

lemma draw_bytes_total:
  assumes wf: "wf_width (unat (img_width qr0))"
  shows "same_frame qr0 (fst st) \<Longrightarrow> on_image qr0 (snd st) \<Longrightarrow>
         \<exists>iter' qr' p'. draw_bytes iter st = Some (iter', qr', p') \<and>
                         same_frame qr0 qr' \<and> on_image qr0 p'"
proof (induction iter st rule: draw_bytes.induct)
  case (1 iter st)
  show ?case
  proof (cases "encoded_msg_iterator_next iter")
    case None
    then show ?thesis using "1.prems"
      by (cases st) (simp add: draw_bytes.simps[of iter])
  next
    case (Some a)
    obtain byte iter' where a: "a = (byte, iter')" by (cases a) auto
    obtain qr x y where st: "st = (qr, x, y)" by (cases st) auto
    from "1.prems" st have sf: "same_frame qr0 qr" and on: "on_image qr0 (x, y)" by simp_all
    from draw_bits_total[OF wf sf on, of byte "rev [0..<8]"] obtain qr' x' y' where
      d: "draw_bits byte (rev [0..<8]) (qr, x, y) = Some (qr', x', y')"
      "same_frame qr0 qr'" "on_image qr0 (x', y')" by blast
    have "\<exists>iter'' qr'' p''. draw_bytes iter' (qr', x', y') = Some (iter'', qr'', p'') \<and>
                         same_frame qr0 qr'' \<and> on_image qr0 p''"
      using "1.IH"[OF Some a[symmetric], of "(qr', x', y')"] d st
      by simp
    then show ?thesis using Some a d(1) st by (simp add: draw_bytes.simps[of iter])
  qed
qed

subsection \<open>The drawing steps keep the frame\<close>

lemma fold_frame:
  "(\<And>a q. same_frame q (f a q)) \<Longrightarrow> same_frame qr (fold f xs qr)"
proof (induction xs arbitrary: qr)
  case Nil
  show ?case by (simp add: same_frame_refl)
next
  case (Cons a xs)
  have "same_frame qr (f a qr)" by (rule Cons.prems)
  moreover have "same_frame (f a qr) (fold f xs (f a qr))" by (rule Cons.IH) (rule Cons.prems)
  ultimately show ?case by (simp add: same_frame_trans)
qed

lemma qr_image_set2_frame: "same_frame qr (qr_image_set (qr_image_set qr a b) c d)"
  by (rule same_frame_trans[OF qr_image_set_frame qr_image_set_frame])

lemma qr_image_set3_frame:
  "same_frame qr (qr_image_set (qr_image_set (qr_image_set qr a b) c d) e f)"
  by (rule same_frame_trans[OF qr_image_set2_frame qr_image_set_frame])

lemma qr_image_draw_square_frame:
  "sz \<noteq> 255 \<Longrightarrow> \<exists>qr'. qr_image_draw_square qr x y sz = Some qr' \<and> same_frame qr qr'"
  unfolding qr_image_draw_square_def Let_def
  apply (simp only: if_False)
  apply (rule exI, rule conjI, rule refl)
  apply (rule same_frame_trans[OF fold_frame fold_frame]; rule qr_image_set2_frame)
  done

lemma qr_image_draw_finders_frame:
  "\<exists>qr'. qr_image_draw_finders qr = Some qr' \<and> same_frame qr qr'"
proof -
  obtain qr1 where 1: "qr_image_draw_square qr 1 1 4 = Some qr1" "same_frame qr qr1"
    using qr_image_draw_square_frame[of 4 qr 1 1] by auto
  obtain qr2 where 2: "qr_image_draw_square qr1 (img_width qr1 - 6) 1 4 = Some qr2"
    "same_frame qr1 qr2"
    using qr_image_draw_square_frame[of 4 qr1 "img_width qr1 - 6" 1] by auto
  obtain qr3 where 3: "qr_image_draw_square qr2 1 (img_width qr2 - 6) 4 = Some qr3"
    "same_frame qr2 qr3"
    using qr_image_draw_square_frame[of 4 qr2 1 "img_width qr2 - 6"] by auto
  have f: "same_frame qr qr3" using 1(2) 2(2) 3(2) by (blast intro: same_frame_trans)
  show ?thesis
    unfolding qr_image_draw_finders_def Let_def
    by (simp only: 1(1) 2(1) 3(1) option.case)
       (blast intro: same_frame_trans[OF f] same_frame_trans[OF fold_frame fold_frame]
          qr_image_set3_frame)
qed

lemma fold_invariant_all:
  "(\<And>a s. P s \<Longrightarrow> P (f a s)) \<Longrightarrow> P s \<Longrightarrow> P (fold f xs s)"
  by (induction xs arbitrary: s) simp_all

lemma qr_image_draw_alignments_frame:
  "\<exists>qr'. qr_image_draw_alignments qr = Some qr' \<and> same_frame qr qr'"
proof -
  let ?P = "\<lambda>acc. \<exists>q. acc = Some q \<and> same_frame qr q"
  have step: "?P (case acc of None \<Rightarrow> None
                  | Some q \<Rightarrow> let x = ps ! i; y = ps ! j in
                      if qr_image_is_finder q x y then Some q
                      else qr_image_draw_square q (x - 1) (y - 1) 2)"
    if "?P acc" for acc ps i j
  proof -
    from that obtain q where q: "acc = Some q" "same_frame qr q" by blast
    obtain q' where "qr_image_draw_square q (ps ! i - 1) (ps ! j - 1) 2 = Some q'" "same_frame q q'"
      using qr_image_draw_square_frame[of 2 q "ps ! i - 1" "ps ! j - 1"] by auto
    then show ?thesis using q by (auto simp: Let_def intro: same_frame_trans)
  qed
  have "?P (Some qr)" by (simp add: same_frame_refl)
  then show ?thesis
    unfolding qr_image_draw_alignments_def Let_def
    by (auto intro!: fold_invariant_all[where P = ?P] step[unfolded Let_def] simp: same_frame_refl)
qed

lemma qr_image_draw_timing_patterns_frame: "same_frame qr (qr_image_draw_timing_patterns qr)"
  unfolding qr_image_draw_timing_patterns_def Let_def
  by (intro fold_frame qr_image_set2_frame)

lemma qr_image_draw_version_info_frame: "same_frame qr (qr_image_draw_version_info qr)"
  unfolding qr_image_draw_version_info_def Let_def
  by (auto intro!: fold_frame qr_image_set2_frame same_frame_refl)

lemma qr_image_draw_maskinfo_frame: "same_frame qr (qr_image_draw_maskinfo qr)"
  unfolding qr_image_draw_maskinfo_def Let_def
  by (rule same_frame_trans[OF fold_frame fold_frame])
     (auto intro!: qr_image_set2_frame same_frame_refl)

lemma qr_image_apply_mask_frame: "same_frame qr (qr_image_apply_mask qr)"
  unfolding qr_image_apply_mask_def
  by (auto intro!: fold_frame qr_image_xor_frame same_frame_refl)

subsection \<open>Generating a symbol\<close>

lemma qr_image_draw_data_total:
  assumes wf: "wf_width (unat (img_width qr))"
  shows "\<exists>qr' iter'. qr_image_draw_data qr iter = Some (qr', iter') \<and> same_frame qr qr'"
proof -
  have w: "1 \<le> unat (img_width qr)" using wf by (simp add: wf_width_def)
  have "unat (img_width qr - 1) = unat (img_width qr) - 1"
    using w by (simp add: unat_sub word_le_nat_alt)
  then have on: "on_image qr (img_width qr - 1, img_width qr - 1)"
    using w by (simp add: on_image_def)
  from draw_bytes_total[OF wf, of "(qr, img_width qr - 1, img_width qr - 1)" iter] on
  obtain iter' qr' p' where
    b: "draw_bytes iter (qr, img_width qr - 1, img_width qr - 1) = Some (iter', qr', p')"
    "same_frame qr qr'" "on_image qr p'"
    by (auto simp: same_frame_refl)
  from fill_remaining_total[OF wf b(2,3)] obtain qr'' where
    f: "fill_remaining qr' p' = Some qr''" "same_frame qr qr''" by blast
  show ?thesis using b(1) f by (cases p') (simp add: qr_image_draw_data_def Let_def)
qed

lemma qr_image_draw_total:
  assumes wf: "wf_width (unat (img_width qr))"
  shows "\<exists>qr'. qr_image_draw qr em = Some qr' \<and> img_width qr' = img_width qr"
proof -
  let ?n = "unat (img_stride qr) * unat (img_width qr)"
  let ?qr0 = "qr\<lparr>img_data := replicate ?n 0 @ drop ?n (img_data qr)\<rparr>"
  have s0: "same_frame qr ?qr0" by (simp add: same_frame_def)
  obtain qr1 where 1: "qr_image_draw_finders ?qr0 = Some qr1" "same_frame ?qr0 qr1"
    using qr_image_draw_finders_frame[of ?qr0] by blast
  obtain qr2 where 2: "qr_image_draw_alignments qr1 = Some qr2" "same_frame qr1 qr2"
    using qr_image_draw_alignments_frame[of qr1] by blast
  let ?qr4 = "qr_image_draw_version_info (qr_image_draw_timing_patterns qr2)"
  have s4: "same_frame qr ?qr4"
    using s0 1(2) 2(2) qr_image_draw_timing_patterns_frame[of qr2]
      qr_image_draw_version_info_frame[of "qr_image_draw_timing_patterns qr2"]
    by (blast intro: same_frame_trans)
  have wf4: "wf_width (unat (img_width ?qr4))" using wf s4 by (simp add: same_frame_def)
  obtain qr5 iter where 5:
    "qr_image_draw_data ?qr4 (encoded_msg_iterator_init em) = Some (qr5, iter)"
    "same_frame ?qr4 qr5"
    using qr_image_draw_data_total[OF wf4, of "encoded_msg_iterator_init em"] by blast
  let ?qr7 = "qr_image_apply_mask (qr_image_draw_maskinfo qr5)"
  have s7: "same_frame qr ?qr7"
    using s4 5(2) qr_image_draw_maskinfo_frame[of qr5]
      qr_image_apply_mask_frame[of "qr_image_draw_maskinfo qr5"]
    by (blast intro: same_frame_trans)
  have "qr_image_draw qr em = Some ?qr7"
    unfolding qr_image_draw_def Let_def by (simp only: 1(1) 2(1) 5(1) option.case prod.case)
  then show ?thesis using s7 by (simp add: same_frame_def)
qed

lemma qr_version_width_valid:
  assumes "1 \<le> v" "v \<le> 40"
  shows "unat (qr_version_width \<lparr>version = v\<rparr>) = 4 * unat v + 17"
    and "wf_width (unat (qr_version_width \<lparr>version = v\<rparr>))"
proof -
  from assms(1) have a: "1 \<le> unat v" by (simp add: word_le_nat_alt)
  from assms(2) have b: "unat v \<le> 40" by (simp add: word_le_nat_alt)
  have "uint v * 4 + 17 = int (4 * unat v + 17)" by simp
  then have "qr_version_width \<lparr>version = v\<rparr> = of_nat (4 * unat v + 17)"
    unfolding qr_version_width_def by (simp only: qr_version.simps of_int_of_nat_eq)
  moreover have "unat (of_nat (4 * unat v + 17) :: u8) = 4 * unat v + 17"
    using b by (subst unat_of_nat) simp
  ultimately show w: "unat (qr_version_width \<lparr>version = v\<rparr>) = 4 * unat v + 17" by simp
  show "wf_width (unat (qr_version_width \<lparr>version = v\<rparr>))"
    unfolding w wf_width_def using a b by simp
qed

lemma qr_image_init_valid:
  assumes v: "1 \<le> v" "v \<le> 40" and em: "em_version em = \<lparr>version = v\<rparr>"
    and sz: "4071 \<le> data_size"
  shows "\<exists>qr. qr_image_init em data data_size = Some qr \<and>
              img_width qr = qr_version_width \<lparr>version = v\<rparr>"
proof -
  let ?W = "unat (qr_version_width \<lparr>version = v\<rparr>)"
  note w = qr_version_width_valid[OF v]
  have W: "?W \<le> 177" using w(2) by (simp add: wf_width_def)
  then have st: "(?W + 8 - 1) div 8 \<le> 23" by simp
  then have "unat (of_nat ((?W + 8 - 1) div 8) :: u8) = (?W + 8 - 1) div 8"
    by (subst unat_of_nat) simp
  moreover have "(?W + 8 - 1) div 8 * ?W \<le> 23 * 177" using st W by (rule mult_le_mono)
  ultimately have "unat (of_nat ((?W + 8 - 1) div 8) :: u8) * ?W \<le> data_size"
    using sz by simp
  then show ?thesis unfolding qr_image_init_def Let_def em by (simp add: not_less[symmetric])
qed

lemma byte_capacity_table:
  "list_all (\<lambda>v. let ver = \<lparr>version = v\<rparr> in
       qr_max_data_size v 0 + 3 \<le> qr_version_max_data ver \<and>
       qr_version_max_data ver +
         qr_version_ec_size ver * (qr_version_g1_blocks ver + qr_version_g2_blocks ver) \<le> 3706)
     (map of_nat [1..<41])"
  by (simp add: upt_conv_Cons Let_def qr_max_data_size_def qr_version_max_data_def
      qr_version_g1_blocks_def qr_version_g2_blocks_def qr_version_ec_size_def
      version_index_def size_t_of_int_def size_t_sub_def VPARAM_def vparam_def)

lemma encoded_msg_init_binary:
  assumes v: "1 \<le> v" "v \<le> 40" and len: "data_len \<le> qr_max_data_size v 0"
    and sz: "3706 \<le> tmp_size"
  shows "\<exists>em. encoded_msg_init
                [\<lparr>seg_type = SEGMENT_BINARY, seg_data = data, seg_length = data_len\<rparr>]
                v tmp tmp_size = Some em"
proof -
  let ?ver = "\<lparr>version = v\<rparr>"
  from valid_version_induct[OF v byte_capacity_table]
  have t: "qr_max_data_size v 0 + 3 \<le> qr_version_max_data ?ver"
    "qr_version_max_data ?ver +
       qr_version_ec_size ?ver * (qr_version_g1_blocks ?ver + qr_version_g2_blocks ?ver) \<le> 3706"
    by (simp_all add: Let_def)
  have nv: "\<not> (v < 1 \<or> v > 40)" using v by (simp only: version_range_iff)
  have bits: "qr_segment_total_size_bits
      \<lparr>seg_type = SEGMENT_BINARY, seg_data = data, seg_length = data_len\<rparr> ?ver + 4
      \<le> qr_version_max_data ?ver * 8"
    using t(1) len by (simp add: qr_segment_total_size_bits_def qr_segment_length_bits_count_def)
  have req: "\<not> tmp_size < qr_version_max_data ?ver +
       qr_version_ec_size ?ver * (qr_version_g1_blocks ?ver + qr_version_g2_blocks ?ver)"
    using t(2) sz by simp
  have pos: "tmp_size \<noteq> 0" using sz by simp
  show ?thesis
    unfolding encoded_msg_init_def Let_def using nv bits req pos by (simp add: not_less[symmetric])
qed

text \<open>
  Claim C4.  For every version \<open>v\<close> in 1..40, with \<open>url = NULL\<close>, \<open>data_size \<ge> 4071\<close>,
  \<open>tmp_size \<ge> 3706\<close> and \<open>data_len \<le> qr_max_data_size v 0\<close>, \<open>qr_generate\<close> returns (every
  loop of the encoder and of the painter ends) and its return value is the width of the
  version, the \<open>u8\<close> \<open>4 * v + 17\<close>.  When the version is outside 1..40 or one of the two
  buffers is smaller than its minimum, it returns 0 and leaves \<open>data\<close> as it was, whatever
  \<open>url\<close> is.
\<close>

theorem qr_generate_width:
  "(1 \<le> v \<and> v \<le> 40 \<and> 4071 \<le> data_size \<and> 3706 \<le> tmp_size \<and>
    data_len \<le> qr_max_data_size v 0 \<longrightarrow>
      (\<exists>image. qr_generate None data data_len v data_size tmp tmp_size
                 = Some (qr_version_width \<lparr>version = v\<rparr>, image)) \<and>
      unat (qr_version_width \<lparr>version = v\<rparr>) = 4 * unat v + 17) \<and>
   (\<not> (1 \<le> v \<and> v \<le> 40) \<or> data_size < 4071 \<or> tmp_size < 3706 \<longrightarrow>
      qr_generate url data data_len v data_size tmp tmp_size = Some (0, data))"
proof (intro conjI impI)
  assume a: "1 \<le> v \<and> v \<le> 40 \<and> 4071 \<le> data_size \<and> 3706 \<le> tmp_size \<and>
    data_len \<le> qr_max_data_size v 0"
  then have v: "1 \<le> v" "v \<le> 40" by simp_all
  let ?segs = "[\<lparr>seg_type = SEGMENT_BINARY, seg_data = data, seg_length = data_len\<rparr>]"
  from a encoded_msg_init_binary[OF v, of data_len tmp_size data tmp] obtain em0 where
    i: "encoded_msg_init ?segs v tmp tmp_size = Some em0" by blast
  let ?em = "encoded_msg_encode em0 ?segs"
  have ver: "em_version ?em = \<lparr>version = v\<rparr>"
    using encoded_msg_init_fields(2)[OF i] same_shape_fields[OF encoded_msg_encode_shape[of em0 ?segs]]
    by simp
  from a qr_image_init_valid[OF v ver, of data_size data] obtain qr where
    q: "qr_image_init ?em data data_size = Some qr"
    "img_width qr = qr_version_width \<lparr>version = v\<rparr>" by blast
  have wf: "wf_width (unat (img_width qr))" unfolding q(2) by (rule qr_version_width_valid(2)[OF v])
  from qr_image_draw_total[OF wf, of ?em] obtain qr' where
    d: "qr_image_draw qr ?em = Some qr'" "img_width qr' = img_width qr" by blast
  have nv: "\<not> (v < 1 \<or> v > 40)" using v by (simp only: version_range_iff)
  have "qr_generate None data data_len v data_size tmp tmp_size
      = Some (qr_version_width \<lparr>version = v\<rparr>, img_data qr')"
    unfolding qr_generate_def Let_def using a nv i q d by (simp add: not_less[symmetric])
  then show "\<exists>image. qr_generate None data data_len v data_size tmp tmp_size
      = Some (qr_version_width \<lparr>version = v\<rparr>, image)" ..
  show "unat (qr_version_width \<lparr>version = v\<rparr>) = 4 * unat v + 17"
    by (rule qr_version_width_valid(1)[OF v])
next
  assume "\<not> (1 \<le> v \<and> v \<le> 40) \<or> data_size < 4071 \<or> tmp_size < 3706"
  then show "qr_generate url data data_len v data_size tmp tmp_size = Some (0, data)"
    unfolding qr_generate_def using version_range_iff[of v] by auto
qed

theorem qr_generate_width_witness:
  "(\<exists>image. qr_generate None (replicate 4071 0) 16 1 4071 (replicate 3706 0) 3706
      = Some (21, image)) \<and>
   qr_generate None (replicate 4071 0) 16 41 4071 (replicate 3706 0) 3706
      = Some (0, replicate 4071 0) \<and>
   qr_generate None (replicate 4070 0) 16 1 4070 (replicate 3706 0) 3706
      = Some (0, replicate 4070 0)"
  using qr_generate_width[of 1 4071 3706 16 "replicate 4071 0" "replicate 3706 0" None]
    qr_generate_width[of 41 4071 3706 16 "replicate 4071 0" "replicate 3706 0" None]
    qr_generate_width[of 1 4070 3706 16 "replicate 4070 0" "replicate 3706 0" None]
  by (simp add: qr_max_data_size_def qr_version_max_data_def version_index_def size_t_of_int_def
      size_t_sub_def VPARAM_def vparam_def qr_version_width_def)

end
